theory Spec2Isabelle
  imports Complex_Main
begin

section \<open>The page: nodes, elements and the document\<close>

text \<open>
  The content script (\<^verbatim>\<open>content.js\<close>) works on the DOM of one page. A node is an
  address (a natural number) into a store of element records; the store keeps, for every
  node, its parent and the ordered list of its children, as a browser does. Only what the
  script reads or writes is kept: tag name, the \<^verbatim>\<open>id\<close>, \<^verbatim>\<open>style\<close> and \<^verbatim>\<open>class\<close>
  attributes, the iframe source, the layout rectangle, the playback facts of a video, the
  document of a same-origin iframe, and the two expando properties pick mode attaches.

  Numbers are JavaScript doubles in the source; they are modelled as reals, and the one
  number that can be \<^verbatim>\<open>NaN\<close> or infinite (a video's duration) has a type of its own.
  The \<^verbatim>\<open>class\<close> attribute is kept as its token list (what \<^verbatim>\<open>classList\<close> shows), so
  reading and assigning \<^verbatim>\<open>className\<close> reads and assigns that list. Whether the
  attribute is present and how its text is spaced are not kept: an assignment of
  \<^verbatim>\<open>className\<close> leaves the attribute present in the browser, also with no token.
\<close>

type_synonym node = nat

datatype duration = NotANumber | Seconds real | Unbounded

text \<open>\<^verbatim>\<open>element.duration > x\<close>: false on \<^verbatim>\<open>NaN\<close>, true on \<^verbatim>\<open>Infinity\<close>.\<close>

fun exceeds :: "duration \<Rightarrow> real \<Rightarrow> bool" where
  "exceeds NotANumber x = False"
| "exceeds (Seconds s) x = (s > x)"
| "exceeds Unbounded x = True"

record DOMRect =
  rect_left :: real
  rect_top :: real
  rect_width :: real
  rect_height :: real

definition rect_right :: "DOMRect \<Rightarrow> real" where
  "rect_right r = rect_left r + rect_width r"

definition rect_bottom :: "DOMRect \<Rightarrow> real" where
  "rect_bottom r = rect_top r + rect_height r"

record element =
  tagName :: string
  parentNode :: "node option"
  childNodes :: "node list"
  elemId :: string
  styleAttr :: "string option"
  classList :: "string list"
  src :: string
  datasetSrc :: "string option"
  clientRect :: DOMRect
  paused :: bool
  ended :: bool
  mediaDuration :: duration
  currentTime :: real
  contentDocument :: "node option"
  paneFullscreenType :: "string option"
  clickListeners :: "string list"
  paneFullscreenHandler :: "string option"

record document =
  elements :: "node \<Rightarrow> element"
  nextNode :: nat
  documentElement :: node
  body :: node
  innerWidth :: real
  innerHeight :: real

text \<open>
  \<open>nextNode d\<close> is the number of nodes allocated so far; \<open>document.createElement\<close>
  hands out node \<open>nextNode d\<close>. Document nodes are not in the store: a root element
  has no parent, like a node that is in no tree. \<open>contentDocument\<close> of an iframe is the root element of
  its document when the frame is same-origin, and \<open>None\<close> when access is denied.
  \<open>clickListeners\<close> are the one-shot capturing click listeners pick mode has attached
  to the element, oldest first, each given by the \<^verbatim>\<open>type\<close> its closure captured;
  \<open>paneFullscreenHandler\<close> is the expando \<^verbatim>\<open>_paneFullscreenHandler\<close>, which names the
  listener attached last.
\<close>

definition upd :: "document \<Rightarrow> node \<Rightarrow> (element \<Rightarrow> element) \<Rightarrow> document" where
  "upd d n f = d\<lparr>elements := (elements d)(n := f (elements d n))\<rparr>"

definition parentOf :: "document \<Rightarrow> node \<Rightarrow> node option" where
  "parentOf d n = parentNode (elements d n)"

definition childrenOf :: "document \<Rightarrow> node \<Rightarrow> node list" where
  "childrenOf d n = childNodes (elements d n)"

subsection \<open>Strings\<close>

definition toLowerChar :: "char \<Rightarrow> char" where
  "toLowerChar c =
     (let k = (of_char c :: nat) in if 65 \<le> k \<and> k \<le> 90 then char_of (k + 32) else c)"

definition toLowerCase :: "string \<Rightarrow> string" where
  "toLowerCase s = map toLowerChar s"

fun startsWith :: "string \<Rightarrow> string \<Rightarrow> bool" where
  "startsWith s [] = True"
| "startsWith [] (p # ps) = False"
| "startsWith (c # cs) (p # ps) = (c = p \<and> startsWith cs ps)"

text \<open>\<open>strIncludes s p\<close>: the string \<open>p\<close> occurs in \<open>s\<close>.\<close>

fun strIncludes :: "string \<Rightarrow> string \<Rightarrow> bool" where
  "strIncludes [] p = (p = [])"
| "strIncludes (c # cs) p = (startsWith (c # cs) p \<or> strIncludes cs p)"

subsection \<open>Tree walks\<close>

text \<open>
  The nodes of the subtree of \<open>n\<close> in tree order (\<open>n\<close> first). The first argument bounds
  the depth of the walk; every caller passes the number of allocated nodes, which no
  branch of a tree of that many nodes exceeds.
\<close>

fun subtree :: "nat \<Rightarrow> (node \<Rightarrow> node list) \<Rightarrow> node \<Rightarrow> node list" where
  "subtree 0 ch n = [n]"
| "subtree (Suc k) ch n = n # concat (map (subtree k ch) (ch n))"

definition treeOrder :: "document \<Rightarrow> node \<Rightarrow> node list" where
  "treeOrder d n = subtree (nextNode d) (childrenOf d) n"

text \<open>\<^verbatim>\<open>root.querySelectorAll(sel)\<close> on a document whose root element is \<open>r\<close>.\<close>

definition querySelectorAll :: "document \<Rightarrow> node \<Rightarrow> (element \<Rightarrow> bool) \<Rightarrow> node list" where
  "querySelectorAll d r P = filter (\<lambda>n. P (elements d n)) (treeOrder d r)"

text \<open>The proper descendants of \<open>n\<close>, at any depth, in tree order.\<close>

definition descendants :: "document \<Rightarrow> node \<Rightarrow> node list" where
  "descendants d n = concat (map (treeOrder d) (childrenOf d n))"

text \<open>\<^verbatim>\<open>element.querySelector(sel)\<close>: the first proper descendant that matches.\<close>

definition querySelector :: "document \<Rightarrow> node \<Rightarrow> (element \<Rightarrow> bool) \<Rightarrow> node option" where
  "querySelector d n P = find (\<lambda>m. P (elements d m)) (descendants d n)"

text \<open>Is \<open>a\<close> an inclusive ancestor of \<open>n\<close>? The walk follows parent pointers.\<close>

fun ancestorWalk :: "nat \<Rightarrow> (node \<Rightarrow> node option) \<Rightarrow> node \<Rightarrow> node \<Rightarrow> bool" where
  "ancestorWalk 0 par a n = (n = a)"
| "ancestorWalk (Suc k) par a n =
     (n = a \<or> (case par n of None \<Rightarrow> False | Some p \<Rightarrow> ancestorWalk k par a p))"

text \<open>\<^verbatim>\<open>a.contains(n)\<close>.\<close>

definition contains :: "document \<Rightarrow> node \<Rightarrow> node \<Rightarrow> bool" where
  "contains d a n = ancestorWalk (nextNode d) (parentOf d) a n"

text \<open>\<^verbatim>\<open>n.closest(sel)\<close>: the nearest inclusive ancestor that matches.\<close>

fun closestWalk :: "nat \<Rightarrow> document \<Rightarrow> (element \<Rightarrow> bool) \<Rightarrow> node \<Rightarrow> node option" where
  "closestWalk 0 d P n = (if P (elements d n) then Some n else None)"
| "closestWalk (Suc k) d P n =
     (if P (elements d n) then Some n
      else case parentOf d n of None \<Rightarrow> None | Some p \<Rightarrow> closestWalk k d P p)"

definition closest :: "document \<Rightarrow> node \<Rightarrow> (element \<Rightarrow> bool) \<Rightarrow> node option" where
  "closest d n P = closestWalk (nextNode d) d P n"

section \<open>Candidate Scanner\<close>

text \<open>
  \<^verbatim>\<open>VIDEO_IFRAME_PATTERNS\<close>: every pattern of the source is a literal, matched anywhere
  in the string and without regard to case, so each is kept as its lower-case text.
\<close>

definition VIDEO_IFRAME_PATTERNS :: "string list" where
  "VIDEO_IFRAME_PATTERNS =
     [''player.'', ''embed'', ''video'', ''stream'', ''megaplay'', ''aniwave'',
      ''youtube.com/embed'', ''youtube-nocookie.com/embed'', ''player.vimeo.com'',
      ''dailymotion.com/embed'', ''twitch.tv/embed'', ''facebook.com/plugins/video'',
      ''streamable.com'', ''vidyard'', ''wistia'', ''jwplatform'', ''brightcove'',
      ''kaltura'', ''ooyala'', ''vidcloud'', ''mp4upload'', ''gogoplay'', ''streamsb'',
      ''fembed'', ''mixdrop'']"

datatype selector =
  IdIs string | ClassIs string | ClassAttrContains string | IdAttrContains string

definition VIDEO_CONTAINER_SELECTORS :: "selector list" where
  "VIDEO_CONTAINER_SELECTORS =
     [IdIs ''video-player'', IdIs ''player-container'', IdIs ''player'',
      ClassIs ''video-player'', ClassIs ''player-container'', ClassIs ''video-container'',
      ClassIs ''player-wrapper'', ClassIs ''video-wrapper'',
      ClassAttrContains ''video-player'', ClassAttrContains ''player-container'',
      IdAttrContains ''video-player'', IdAttrContains ''player-container'']"

text \<open>
  A pattern of \<open>[class*="..."]\<close> has no white space, so it occurs in the attribute
  exactly when it occurs in one of the tokens.
\<close>

fun matches :: "selector \<Rightarrow> element \<Rightarrow> bool" where
  "matches (IdIs i) e = (elemId e = i)"
| "matches (ClassIs c) e = (c \<in> set (classList e))"
| "matches (ClassAttrContains p) e = list_ex (\<lambda>c. strIncludes c p) (classList e)"
| "matches (IdAttrContains p) e = strIncludes (elemId e) p"

definition matchesAny :: "selector list \<Rightarrow> element \<Rightarrow> bool" where
  "matchesAny sels e = list_ex (\<lambda>s. matches s e) sels"

definition isTag :: "string \<Rightarrow> element \<Rightarrow> bool" where
  "isTag t e = (tagName e = t)"

definition iframeSrc :: "element \<Rightarrow> string" where
  "iframeSrc e =
     (if src e \<noteq> [] then src e
      else case datasetSrc e of None \<Rightarrow> [] | Some s \<Rightarrow> s)"

definition isVideoIframe :: "element \<Rightarrow> bool" where
  "isVideoIframe e =
     (let s = iframeSrc e in
      if s = [] then False
      else list_ex (\<lambda>pattern. strIncludes (toLowerCase s) pattern) VIDEO_IFRAME_PATTERNS)"

definition findAllVideos :: "document \<Rightarrow> node list" where
  "findAllVideos d =
     querySelectorAll d (documentElement d) (isTag ''VIDEO'') @
     concat (map (\<lambda>iframe.
                (case contentDocument (elements d iframe) of
                   None \<Rightarrow> []
                 | Some iframeDoc \<Rightarrow> querySelectorAll d iframeDoc (isTag ''VIDEO'')))
             (querySelectorAll d (documentElement d) (isTag ''IFRAME'')))"

definition iframeQualifies :: "document \<Rightarrow> node \<Rightarrow> bool" where
  "iframeQualifies d iframe =
     (if isVideoIframe (elements d iframe) then True
      else
        let rect = clientRect (elements d iframe) in
        if rect_width rect \<ge> 200 \<and> rect_height rect \<ge> 150 then
          (if closest d iframe (matchesAny VIDEO_CONTAINER_SELECTORS) \<noteq> None then True
           else
             let aspectRatio = rect_width rect / rect_height rect in
             aspectRatio \<ge> 1.2 \<and> aspectRatio \<le> 2.5)
        else False)"

definition findVideoIframes :: "document \<Rightarrow> node list" where
  "findVideoIframes d =
     filter (iframeQualifies d) (querySelectorAll d (documentElement d) (isTag ''IFRAME''))"

definition isMedia :: "element \<Rightarrow> bool" where
  "isMedia e = (tagName e = ''IFRAME'' \<or> tagName e = ''VIDEO'')"

definition containerQualifies :: "document \<Rightarrow> node \<Rightarrow> bool" where
  "containerQualifies d container =
     (let hasMedia = querySelector d container isMedia;
          rect = clientRect (elements d container) in
      hasMedia \<noteq> None \<or> (rect_width rect \<ge> 200 \<and> rect_height rect \<ge> 150))"

definition findVideoContainers :: "document \<Rightarrow> node list" where
  "findVideoContainers d =
     concat (map (\<lambda>selector.
                filter (containerQualifies d)
                  (querySelectorAll d (documentElement d) (matches selector)))
             VIDEO_CONTAINER_SELECTORS)"

section \<open>Scorer\<close>

definition isVisible :: "document \<Rightarrow> DOMRect \<Rightarrow> bool" where
  "isVisible d rect =
     (rect_width rect > 0 \<and> rect_height rect > 0 \<and>
      rect_top rect < innerHeight d \<and> rect_bottom rect > 0 \<and>
      rect_left rect < innerWidth d \<and> rect_right rect > 0)"

definition getElementScore :: "document \<Rightarrow> node \<Rightarrow> real" where
  "getElementScore d n =
     (let element = elements d n;
          rect = clientRect element;
          area = rect_width rect * rect_height rect in
      if \<not> isVisible d rect then 0
      else
        let score = area;
            score = (if tagName element = ''VIDEO'' then
                       (let score = (if \<not> paused element \<and> \<not> ended element
                                     then score * 2 else score) in
                        if exceeds (mediaDuration element) 60 then score * 1.5 else score)
                     else score);
            score = (if tagName element = ''IFRAME'' then
                       (if isVideoIframe element then score * 1.5 else score)
                     else score)
        in score)"

section \<open>Selector\<close>

text \<open>
  The three \<^verbatim>\<open>findBest...\<close> functions run the same loop over their list: the pair is
  (\<^verbatim>\<open>best\<close>, \<^verbatim>\<open>bestScore\<close>), started at (\<^verbatim>\<open>null\<close>, 0).
\<close>

fun bestLoop :: "document \<Rightarrow> node list \<Rightarrow> node option \<times> real \<Rightarrow> node option \<times> real" where
  "bestLoop d [] acc = acc"
| "bestLoop d (x # xs) (best, bestScore) =
     (let score = getElementScore d x in
      if score > bestScore then bestLoop d xs (Some x, score)
      else bestLoop d xs (best, bestScore))"

definition findBestVideo :: "document \<Rightarrow> node option" where
  "findBestVideo d =
     (let videos = findAllVideos d in
      if videos = [] then None else fst (bestLoop d videos (None, 0)))"

definition findBestIframe :: "document \<Rightarrow> node option" where
  "findBestIframe d =
     (let iframes = findVideoIframes d in
      if iframes = [] then None else fst (bestLoop d iframes (None, 0)))"

definition findBestContainer :: "document \<Rightarrow> node option" where
  "findBestContainer d =
     (let containers = findVideoContainers d in
      if containers = [] then None else fst (bestLoop d containers (None, 0)))"

definition findBestPlayableElement :: "document \<Rightarrow> (node \<times> string) option" where
  "findBestPlayableElement d =
     (case findBestVideo d of
        Some video \<Rightarrow> Some (video, ''video'')
      | None \<Rightarrow>
          (case findBestIframe d of
             Some iframe \<Rightarrow> Some (iframe, ''iframe'')
           | None \<Rightarrow>
               (case findBestContainer d of
                  Some container \<Rightarrow> Some (container, ''container'')
                | None \<Rightarrow> None)))"

text \<open>
  \<^verbatim>\<open>getAllSelectableElements\<close>: the containers are added one by one, each tested against
  the list built so far.
\<close>

definition addContainer :: "document \<Rightarrow> (node \<times> string) list \<Rightarrow> node \<Rightarrow> (node \<times> string) list" where
  "addContainer d els c =
     (let hasFoundIframe = list_ex (\<lambda>e. snd e = ''iframe'' \<and> contains d c (fst e)) els in
      if \<not> hasFoundIframe then els @ [(c, ''container'')] else els)"

definition getAllSelectableElements :: "document \<Rightarrow> (node \<times> string) list" where
  "getAllSelectableElements d =
     foldl (addContainer d)
       (map (\<lambda>v. (v, ''video'')) (findAllVideos d) @
        map (\<lambda>i. (i, ''iframe'')) (findVideoIframes d))
       (findVideoContainers d)"

section \<open>DOM mutation\<close>

text \<open>
  Exceptions of the platform are values: an operation that can throw returns either the
  exception or its result. \<open>insertBefore\<close> makes the checks of the DOM standard before it
  changes anything: the node must not be an inclusive ancestor of the new parent
  (\<^verbatim>\<open>HierarchyRequestError\<close>) and the reference child must be a child of that parent
  (\<^verbatim>\<open>NotFoundError\<close>).
\<close>

datatype exn = HierarchyRequestError | NotFoundError | TypeError

datatype 'a completion = Returned 'a | Threw exn

fun nextAfter :: "node \<Rightarrow> node list \<Rightarrow> node option" where
  "nextAfter n [] = None"
| "nextAfter n (x # xs) =
     (if x = n then (case xs of [] \<Rightarrow> None | y # ys \<Rightarrow> Some y) else nextAfter n xs)"

definition nextSibling :: "document \<Rightarrow> node \<Rightarrow> node option" where
  "nextSibling d n =
     (case parentOf d n of None \<Rightarrow> None | Some p \<Rightarrow> nextAfter n (childrenOf d p))"

text \<open>\<^verbatim>\<open>n.remove()\<close>, also the first half of every move.\<close>

definition removeNode :: "document \<Rightarrow> node \<Rightarrow> document" where
  "removeNode d n =
     (case parentOf d n of
        None \<Rightarrow> d
      | Some p \<Rightarrow>
          upd (upd d p (\<lambda>e. e\<lparr>childNodes := removeAll n (childNodes e)\<rparr>))
              n (\<lambda>e. e\<lparr>parentNode := None\<rparr>))"

fun insertInto :: "node \<Rightarrow> node option \<Rightarrow> node list \<Rightarrow> node list" where
  "insertInto n None xs = xs @ [n]"
| "insertInto n (Some r) [] = [n]"
| "insertInto n (Some r) (x # xs) =
     (if x = r then n # x # xs else x # insertInto n (Some r) xs)"

text \<open>The standard's ``insert'': the node leaves its parent and joins the new one.\<close>

definition insertNode :: "document \<Rightarrow> node \<Rightarrow> node \<Rightarrow> node option \<Rightarrow> document" where
  "insertNode d parent n referenceChild =
     (let d = removeNode d n;
          d = upd d parent
                (\<lambda>e. e\<lparr>childNodes := insertInto n referenceChild (childNodes e)\<rparr>)
      in upd d n (\<lambda>e. e\<lparr>parentNode := Some parent\<rparr>))"

definition insertBefore :: "document \<Rightarrow> node \<Rightarrow> node \<Rightarrow> node option \<Rightarrow> exn + document" where
  "insertBefore d parent n child =
     (if contains d n parent then Inl HierarchyRequestError
      else if (case child of None \<Rightarrow> False | Some c \<Rightarrow> parentOf d c \<noteq> Some parent)
        then Inl NotFoundError
      else
        let referenceChild = (if child = Some n then nextSibling d n else child)
        in Inr (insertNode d parent n referenceChild))"

definition appendChild :: "document \<Rightarrow> node \<Rightarrow> node \<Rightarrow> exn + document" where
  "appendChild d parent n = insertBefore d parent n None"

definition classListAdd :: "document \<Rightarrow> node \<Rightarrow> string \<Rightarrow> document" where
  "classListAdd d n c =
     upd d n (\<lambda>e. if c \<in> set (classList e) then e else e\<lparr>classList := classList e @ [c]\<rparr>)"

definition classListRemove :: "document \<Rightarrow> node \<Rightarrow> string \<Rightarrow> document" where
  "classListRemove d n c = upd d n (\<lambda>e. e\<lparr>classList := removeAll c (classList e)\<rparr>)"

definition blankElement :: "string \<Rightarrow> element" where
  "blankElement tag =
     \<lparr>tagName = tag, parentNode = None, childNodes = [], elemId = [], styleAttr = None,
      classList = [], src = [], datasetSrc = None,
      clientRect = \<lparr>rect_left = 0, rect_top = 0, rect_width = 0, rect_height = 0\<rparr>,
      paused = True, ended = False, mediaDuration = NotANumber, currentTime = 0,
      contentDocument = None, paneFullscreenType = None, clickListeners = [],
      paneFullscreenHandler = None\<rparr>"

definition createElement :: "document \<Rightarrow> string \<Rightarrow> node \<times> document" where
  "createElement d tag =
     (nextNode d,
      d\<lparr>elements := (elements d)(nextNode d := blankElement tag),
        nextNode := Suc (nextNode d)\<rparr>)"

definition getElementById :: "document \<Rightarrow> string \<Rightarrow> node option" where
  "getElementById d i =
     find (\<lambda>n. elemId (elements d n) = i) (treeOrder d (documentElement d))"

text \<open>
  \<^verbatim>\<open>video.play()\<close>: the promise's rejection is caught and dropped by every caller; a
  rejected call leaves the video paused, which the environment may do at any time anyway.
\<close>

definition play :: "document \<Rightarrow> node \<Rightarrow> document" where
  "play d n = upd d n (\<lambda>e. e\<lparr>paused := False\<rparr>)"

section \<open>State Snapshot and Restore\<close>

record originalState =
  os_element :: node
  os_parent :: "node option"
  os_nextSibling :: "node option"
  os_style :: string
  os_className :: "string list"
  os_type :: string
  os_wasPlaying :: "bool option"
  os_currentTime :: "real option"

definition saveElementState :: "document \<Rightarrow> node \<Rightarrow> originalState" where
  "saveElementState d element =
     (let e = elements d element in
      \<lparr>os_element = element,
       os_parent = parentOf d element,
       os_nextSibling = nextSibling d element,
       os_style = (case styleAttr e of None \<Rightarrow> [] | Some s \<Rightarrow> s),
       os_className = classList e,
       os_type = toLowerCase (tagName e),
       os_wasPlaying = (if tagName e = ''VIDEO'' then Some (\<not> paused e) else None),
       os_currentTime = (if tagName e = ''VIDEO'' then Some (currentTime e) else None)\<rparr>)"

definition restoreElementState ::
  "document \<Rightarrow> node option \<Rightarrow> originalState option \<Rightarrow> unit completion \<times> document" where
  "restoreElementState d element state =
     (case state of
        None \<Rightarrow> (Returned (), d)
      | Some st \<Rightarrow>
          (case element of
             None \<Rightarrow> (Returned (), d)
           | Some e \<Rightarrow>
               let d = upd d e (\<lambda>x. x\<lparr>styleAttr := Some (os_style st)\<rparr>);
                   d = upd d e (\<lambda>x. x\<lparr>classList := os_className st\<rparr>);
                   d = classListRemove d e ''pane-fullscreen-video'';
                   d = classListRemove d e ''pane-fullscreen-iframe'';
                   d = classListRemove d e ''pane-fullscreen-container''
               in (case os_parent st of
                     None \<Rightarrow> (Returned (), d)
                   | Some parent \<Rightarrow>
                       (case insertBefore d parent e (os_nextSibling st) of
                          Inl x \<Rightarrow> (Threw x, d)
                        | Inr d' \<Rightarrow> (Returned (), d')))))"

section \<open>Overlay Session\<close>

record state =
  doc :: document
  isActive :: bool
  currentElement :: "node option"
  overlay :: "node option"
  elementContainer :: "node option"
  originalElementState :: "originalState option"
  selectMode :: bool
  cancelListeners :: nat
  pendingTimers :: nat

text \<open>
  \<open>cancelListeners\<close> counts the one-shot \<^verbatim>\<open>keydown\<close> listeners pick mode has armed on the
  document, \<open>pendingTimers\<close> the 15-second timers not yet fired.
\<close>

definition OVERLAY_ID :: string where
  "OVERLAY_ID = ''pane-fullscreen-overlay''"

definition CONTAINER_ID :: string where
  "CONTAINER_ID = ''pane-fullscreen-container''"

definition removeOverlay :: "state \<Rightarrow> state" where
  "removeOverlay s =
     (let d = (case getElementById (doc s) OVERLAY_ID of
                 None \<Rightarrow> doc s
               | Some existingOverlay \<Rightarrow> removeNode (doc s) existingOverlay)
      in s\<lparr>doc := d, overlay := None, elementContainer := None\<rparr>)"

text \<open>
  \<^verbatim>\<open>createOverlay\<close>. The close button's icon and the hint's text are content no
  function of the script looks at; they are left out. The two module variables are
  assigned as soon as their elements exist, as in the source.
\<close>

definition createOverlay :: "state \<Rightarrow> unit completion \<times> state" where
  "createOverlay s0 =
     (let s = removeOverlay s0;
          (ov, d) = createElement (doc s) ''DIV'';
          d = upd d ov (\<lambda>e. e\<lparr>elemId := OVERLAY_ID, classList := [''pane-fullscreen-overlay'']\<rparr>);
          (ec, d) = createElement d ''DIV'';
          d = upd d ec (\<lambda>e. e\<lparr>elemId := CONTAINER_ID,
                                classList := [''pane-fullscreen-video-container'']\<rparr>);
          (closeBtn, d) = createElement d ''BUTTON'';
          d = upd d closeBtn (\<lambda>e. e\<lparr>classList := [''pane-fullscreen-close-btn'']\<rparr>);
          (hint, d) = createElement d ''DIV'';
          d = upd d hint (\<lambda>e. e\<lparr>classList := [''pane-fullscreen-hint'']\<rparr>);
          s = s\<lparr>overlay := Some ov, elementContainer := Some ec\<rparr>
      in (case appendChild d ov ec of
            Inl x \<Rightarrow> (Threw x, s\<lparr>doc := d\<rparr>)
          | Inr d \<Rightarrow>
         (case appendChild d ov closeBtn of
            Inl x \<Rightarrow> (Threw x, s\<lparr>doc := d\<rparr>)
          | Inr d \<Rightarrow>
         (case appendChild d ov hint of
            Inl x \<Rightarrow> (Threw x, s\<lparr>doc := d\<rparr>)
          | Inr d \<Rightarrow>
         (case appendChild d (body d) ov of
            Inl x \<Rightarrow> (Threw x, s\<lparr>doc := d\<rparr>)
          | Inr d \<Rightarrow> (Returned (), s\<lparr>doc := d\<rparr>))))))"

definition exitPaneFullscreen :: "state \<Rightarrow> unit completion \<times> state" where
  "exitPaneFullscreen s =
     (if \<not> isActive s then (Returned (), s)
      else
        (case (case currentElement s of
                 None \<Rightarrow> (Returned (), doc s)
               | Some e \<Rightarrow>
                   (case originalElementState s of
                      None \<Rightarrow> (Returned (), doc s)
                    | Some st \<Rightarrow>
                        (case restoreElementState (doc s) (Some e) (Some st) of
                           (Threw x, d) \<Rightarrow> (Threw x, d)
                         | (Returned u, d) \<Rightarrow>
                             (Returned (),
                              if os_type st = ''video'' \<and> os_wasPlaying st = Some True
                              then play d e else d)))) of
           (Threw x, d) \<Rightarrow> (Threw x, s\<lparr>doc := d\<rparr>)
         | (Returned u, d) \<Rightarrow>
             (Returned (),
              (removeOverlay (s\<lparr>doc := d\<rparr>))
                \<lparr>isActive := False, currentElement := None, originalElementState := None\<rparr>)))"

definition markerClass :: "string \<Rightarrow> string" where
  "markerClass type =
     (if type = ''video'' then ''pane-fullscreen-video''
      else if type = ''iframe'' then ''pane-fullscreen-iframe''
      else ''pane-fullscreen-container'')"

text \<open>
  \<^verbatim>\<open>enterPaneFullscreen(element, type)\<close>; \<open>None\<close> is a missing (falsy) element. The
  focus call changes nothing the script reads; the animation frame it requests is the
  step \<open>animationFrame\<close> below.
\<close>

definition enterPaneFullscreen :: "node option \<Rightarrow> string \<Rightarrow> state \<Rightarrow> bool completion \<times> state" where
  "enterPaneFullscreen element type s =
     (case element of
        None \<Rightarrow> (Returned False, s)
      | Some e \<Rightarrow>
          (case (if isActive s then exitPaneFullscreen s else (Returned (), s)) of
             (Threw x, s) \<Rightarrow> (Threw x, s)
           | (Returned u, s) \<Rightarrow>
               let st = saveElementState (doc s) e;
                   s = s\<lparr>originalElementState := Some st, currentElement := Some e\<rparr>
               in (case createOverlay s of
                     (Threw x, s) \<Rightarrow> (Threw x, s)
                   | (Returned u, s) \<Rightarrow>
                       let s = s\<lparr>doc := classListAdd (doc s) e (markerClass type)\<rparr> in
                       (case elementContainer s of
                          None \<Rightarrow> (Threw TypeError, s)
                        | Some ec \<Rightarrow>
                            (case appendChild (doc s) ec e of
                               Inl x \<Rightarrow> (Threw x, s)
                             | Inr d \<Rightarrow>
                                 let d = (if type = ''video'' \<and> os_wasPlaying st = Some True
                                          then play d e else d)
                                 in (Returned True, s\<lparr>doc := d, isActive := True\<rparr>))))))"

section \<open>Interactive Picker\<close>

definition markSelectable :: "document \<Rightarrow> node \<times> string \<Rightarrow> document" where
  "markSelectable d sel =
     (let element = fst sel; type = snd sel;
          d = classListAdd d element ''pane-fullscreen-selectable''
      in upd d element
           (\<lambda>e. e\<lparr>paneFullscreenType := Some type,
                  clickListeners := clickListeners e @ [type],
                  paneFullscreenHandler := Some type\<rparr>))"

text \<open>
  \<^verbatim>\<open>enableSelectMode\<close>: the result is \<open>None\<close> for JavaScript's \<^verbatim>\<open>undefined\<close> (the
  bare \<^verbatim>\<open>return\<close> of the first line) and \<open>Some n\<close> for a number.
\<close>

definition enableSelectMode :: "state \<Rightarrow> nat option \<times> state" where
  "enableSelectMode s =
     (if selectMode s then (None, s)
      else
        let s = s\<lparr>selectMode := True\<rparr>;
            d = classListAdd (doc s) (body (doc s)) ''pane-fullscreen-select-mode'';
            selectables = getAllSelectableElements d;
            d = foldl markSelectable d selectables
        in (Some (length selectables),
            s\<lparr>doc := d,
              cancelListeners := Suc (cancelListeners s),
              pendingTimers := Suc (pendingTimers s)\<rparr>))"

definition unmarkSelectable :: "document \<Rightarrow> node \<Rightarrow> document" where
  "unmarkSelectable d element =
     (let d = classListRemove d element ''pane-fullscreen-selectable'';
          d = upd d element (\<lambda>e. e\<lparr>paneFullscreenType := None\<rparr>)
      in if paneFullscreenHandler (elements d element) \<noteq> None
         then upd d element
                (\<lambda>e. e\<lparr>clickListeners := butlast (clickListeners e),
                       paneFullscreenHandler := None\<rparr>)
         else d)"

definition disableSelectMode :: "state \<Rightarrow> state" where
  "disableSelectMode s =
     (if \<not> selectMode s then s
      else
        let s = s\<lparr>selectMode := False\<rparr>;
            d = classListRemove (doc s) (body (doc s)) ''pane-fullscreen-select-mode'';
            marked = querySelectorAll d (documentElement d)
                       (matches (ClassIs ''pane-fullscreen-selectable''))
        in s\<lparr>doc := foldl unmarkSelectable d marked\<rparr>)"

definition handleElementSelect :: "node \<Rightarrow> string \<Rightarrow> state \<Rightarrow> bool completion \<times> state" where
  "handleElementSelect element type s =
     enterPaneFullscreen (Some element) type (disableSelectMode s)"

section \<open>Events and messages\<close>

text \<open>
  A click that reaches the listeners of \<open>element\<close>: they run oldest first, each removed
  before it runs (\<^verbatim>\<open>once\<close>); one that \<^verbatim>\<open>disableSelectMode\<close> has removed meanwhile
  does not run. What a listener throws is reported by the browser and the dispatch goes on.
\<close>

fun clickLoop :: "nat \<Rightarrow> node \<Rightarrow> state \<Rightarrow> state" where
  "clickLoop 0 element s = s"
| "clickLoop (Suc k) element s =
     (case clickListeners (elements (doc s) element) of
        [] \<Rightarrow> s
      | type # rest \<Rightarrow>
          clickLoop k element
            (snd (handleElementSelect element type
                    (s\<lparr>doc := upd (doc s) element (\<lambda>e. e\<lparr>clickListeners := rest\<rparr>)\<rparr>))))"

definition click :: "node \<Rightarrow> state \<Rightarrow> state" where
  "click element s = clickLoop (length (clickListeners (elements (doc s) element))) element s"

text \<open>
  A key press. \<^verbatim>\<open>handleKeydown\<close> listens on the document in the capturing phase and
  stops the propagation when it exits a session, so the one-shot listeners of pick mode
  (bubbling phase) run only otherwise; they are removed once run, whatever the key.
\<close>

definition keydown :: "string \<Rightarrow> state \<Rightarrow> state" where
  "keydown key s =
     (if key = ''Escape'' \<and> isActive s then snd (exitPaneFullscreen s)
      else
        let armed = cancelListeners s;
            s = s\<lparr>cancelListeners := 0\<rparr>
        in if key = ''Escape'' \<and> armed > 0 then disableSelectMode s else s)"

text \<open>One of the 15-second timers of pick mode fires.\<close>

definition timerFired :: "state \<Rightarrow> state" where
  "timerFired s =
     (if pendingTimers s = 0 then s
      else
        let s = s\<lparr>pendingTimers := pendingTimers s - 1\<rparr>
        in if selectMode s then disableSelectMode s else s)"

text \<open>
  The animation frame requested by \<^verbatim>\<open>enterPaneFullscreen\<close>; its callback reads the
  module variable \<^verbatim>\<open>overlay\<close> when it runs.
\<close>

definition animationFrame :: "state \<Rightarrow> state" where
  "animationFrame s =
     (case overlay s of
        None \<Rightarrow> s
      | Some ov \<Rightarrow> s\<lparr>doc := classListAdd (doc s) ov ''active''\<rparr>)"

text \<open>The two-second timer of \<^verbatim>\<open>createOverlay\<close> fades the hint \<open>hint\<close>.\<close>

definition hintTimerFired :: "node \<Rightarrow> state \<Rightarrow> state" where
  "hintTimerFired hint s = s\<lparr>doc := classListAdd (doc s) hint ''fade-out''\<rparr>"

datatype request = AutoFullscreen | SelectVideo | ExitFullscreen | GetStatus | OtherAction

datatype message =
  Expanded string | FailedToExpand | NoPlayerFound | NoVideosFound
  | Found "nat option" | Exited | UnknownAction

datatype response = Result bool message | Status bool bool nat

definition kindName :: "string \<Rightarrow> string" where
  "kindName type =
     (if type = ''video'' then ''Video'' else if type = ''iframe'' then ''Player''
      else ''Container'')"

text \<open>
  The listener of \<^verbatim>\<open>chrome.runtime.onMessage\<close>. \<open>Found count\<close> is the text
  \<^verbatim>\<open>Found ${count} element(s). Click one to select.\<close>
\<close>

fun onMessage :: "request \<Rightarrow> state \<Rightarrow> response completion \<times> state" where
  "onMessage AutoFullscreen s =
     (case findBestPlayableElement (doc s) of
        Some result \<Rightarrow>
          (case enterPaneFullscreen (Some (fst result)) (snd result) s of
             (Threw x, s) \<Rightarrow> (Threw x, s)
           | (Returned success, s) \<Rightarrow>
               (Returned (Result success
                            (if success then Expanded (kindName (snd result))
                             else FailedToExpand)), s))
      | None \<Rightarrow> (Returned (Result False NoPlayerFound), s))"
| "onMessage SelectVideo s =
     (case enableSelectMode s of
        (count, s) \<Rightarrow>
          if count = Some 0 then (Returned (Result False NoVideosFound), disableSelectMode s)
          else (Returned (Result True (Found count)), s))"
| "onMessage ExitFullscreen s =
     (case exitPaneFullscreen s of
        (Threw x, s) \<Rightarrow> (Threw x, s)
      | (Returned u, s) \<Rightarrow> (Returned (Result True Exited), s))"
| "onMessage GetStatus s =
     (let selectables = getAllSelectableElements (doc s) in
      (Returned (Status (isActive s) (length selectables > 0) (length selectables)), s))"
| "onMessage OtherAction s = (Returned (Result False UnknownAction), s)"

section \<open>Sample pages and auxiliary predicates\<close>

text \<open>
  \<open>isFirstBest d xs y\<close>: \<open>y\<close> is a member of \<open>xs\<close> with the highest score, and the first
  such member in the order of the list.
\<close>

definition isFirstBest :: "document \<Rightarrow> node list \<Rightarrow> node \<Rightarrow> bool" where
  "isFirstBest d xs y =
     (y \<in> set xs \<and>
      list_all (\<lambda>x. getElementScore d x \<le> getElementScore d y) xs \<and>
      list_all (\<lambda>x. getElementScore d x < getElementScore d y) (takeWhile (\<lambda>x. x \<noteq> y) xs))"

definition sampleElement :: "string \<Rightarrow> node option \<Rightarrow> node list \<Rightarrow> element" where
  "sampleElement tag p cs = (blankElement tag)\<lparr>parentNode := p, childNodes := cs\<rparr>"

definition box :: "real \<Rightarrow> real \<Rightarrow> real \<Rightarrow> real \<Rightarrow> DOMRect" where
  "box x y w h = \<lparr>rect_left = x, rect_top = y, rect_width = w, rect_height = h\<rparr>"

definition samplePage :: document where
  "samplePage =
     \<lparr>elements = (\<lambda>n. blankElement ''#text'')
        (0 := sampleElement ''HTML'' None [1],
         1 := sampleElement ''BODY'' (Some 0) [2, 3, 4],
         2 := (sampleElement ''VIDEO'' (Some 1) [])\<lparr>clientRect := box 0 0 800 450\<rparr>,
         3 := (sampleElement ''IFRAME'' (Some 1) [])
                \<lparr>clientRect := box 0 460 640 360, src := ''https://www.YouTube.com/embed/x''\<rparr>,
         4 := (sampleElement ''DIV'' (Some 1) [])
                \<lparr>clientRect := box 0 100 640 360, elemId := ''player''\<rparr>),
      nextNode = 5, documentElement = 0, body = 1, innerWidth = 1280, innerHeight = 720\<rparr>"

definition twoVideosPage :: document where
  "twoVideosPage =
     \<lparr>elements = (\<lambda>n. blankElement ''#text'')
        (0 := sampleElement ''HTML'' None [1],
         1 := sampleElement ''BODY'' (Some 0) [2, 3],
         2 := (sampleElement ''VIDEO'' (Some 1) [])
                \<lparr>clientRect := box 0 0 800 450, paused := True\<rparr>,
         3 := (sampleElement ''VIDEO'' (Some 1) [])
                \<lparr>clientRect := box 0 460 400 225, paused := False,
                  mediaDuration := Seconds 120\<rparr>),
      nextNode = 4, documentElement = 0, body = 1, innerWidth = 1280, innerHeight = 720\<rparr>"

definition offscreenPage :: document where
  "offscreenPage =
     \<lparr>elements = (\<lambda>n. blankElement ''#text'')
        (0 := sampleElement ''HTML'' None [1],
         1 := sampleElement ''BODY'' (Some 0) [2, 3],
         2 := (sampleElement ''VIDEO'' (Some 1) [])
                \<lparr>clientRect := box 0 2000 1920 1080, paused := False,
                  mediaDuration := Seconds 3600\<rparr>,
         3 := (sampleElement ''IFRAME'' (Some 1) [])
                \<lparr>clientRect := box 0 0 640 0, src := ''https://player.vimeo.com/video/1''\<rparr>),
      nextNode = 4, documentElement = 0, body = 1, innerWidth = 1280, innerHeight = 720\<rparr>"

text \<open>
  Two readings of the specification's words, kept apart from the code's own tests: a
  container that has a frame or video among its children (``directly contains''), and a
  rectangle that lies within another (``spatially contains'').
\<close>

definition directlyContainsMedia :: "document \<Rightarrow> node \<Rightarrow> bool" where
  "directlyContainsMedia d c = list_ex (\<lambda>m. isMedia (elements d m)) (childrenOf d c)"

definition spatiallyContains :: "DOMRect \<Rightarrow> DOMRect \<Rightarrow> bool" where
  "spatiallyContains outer inner =
     (rect_left outer \<le> rect_left inner \<and> rect_top outer \<le> rect_top inner \<and>
      rect_right inner \<le> rect_right outer \<and> rect_bottom inner \<le> rect_bottom outer)"

definition nestedMediaPage :: document where
  "nestedMediaPage =
     \<lparr>elements = (\<lambda>n. blankElement ''#text'')
        (0 := sampleElement ''HTML'' None [1],
         1 := sampleElement ''BODY'' (Some 0) [2],
         2 := (sampleElement ''DIV'' (Some 1) [3])
                \<lparr>clientRect := box 0 0 100 100, elemId := ''player''\<rparr>,
         3 := (sampleElement ''DIV'' (Some 2) [4])\<lparr>clientRect := box 0 0 100 100\<rparr>,
         4 := (sampleElement ''VIDEO'' (Some 3) [])\<lparr>clientRect := box 0 0 100 100\<rparr>),
      nextNode = 5, documentElement = 0, body = 1, innerWidth = 1280, innerHeight = 720\<rparr>"

definition playerPage :: document where
  "playerPage =
     \<lparr>elements = (\<lambda>n. blankElement ''#text'')
        (0 := sampleElement ''HTML'' None [1],
         1 := sampleElement ''BODY'' (Some 0) [2, 4],
         2 := (sampleElement ''DIV'' (Some 1) [3])
                \<lparr>clientRect := box 0 0 800 450, classList := [''video-container'']\<rparr>,
         3 := (sampleElement ''IFRAME'' (Some 2) [])
                \<lparr>clientRect := box 0 0 800 450, src := ''https://www.youtube.com/embed/x''\<rparr>,
         4 := (sampleElement ''DIV'' (Some 1) [])
                \<lparr>clientRect := box 0 460 640 360, elemId := ''player''\<rparr>),
      nextNode = 5, documentElement = 0, body = 1, innerWidth = 1280, innerHeight = 720\<rparr>"

definition overlapPage :: document where
  "overlapPage =
     \<lparr>elements = (\<lambda>n. blankElement ''#text'')
        (0 := sampleElement ''HTML'' None [1],
         1 := sampleElement ''BODY'' (Some 0) [2, 3],
         2 := (sampleElement ''DIV'' (Some 1) [])
                \<lparr>clientRect := box 0 0 800 600, elemId := ''player''\<rparr>,
         3 := (sampleElement ''IFRAME'' (Some 1) [])
                \<lparr>clientRect := box 100 100 400 300, src := ''https://www.youtube.com/embed/x''\<rparr>),
      nextNode = 4, documentElement = 0, body = 1, innerWidth = 1280, innerHeight = 720\<rparr>"

definition initialState :: "document \<Rightarrow> state" where
  "initialState d =
     \<lparr>doc = d, isActive = False, currentElement = None, overlay = None,
      elementContainer = None, originalElementState = None, selectMode = False,
      cancelListeners = 0, pendingTimers = 0\<rparr>"


section \<open>Well-formed documents\<close>

text \<open>
  The parent pointers and the child lists of a browser's DOM describe one forest. \<open>edges\<close>
  is its parent-child relation over the allocated nodes and \<open>treeInv\<close> says what a
  forest is: parents and child lists agree, no node is listed twice, the relation has no
  cycle, the body is a child of the root element, and no allocated node refers to a node
  not yet allocated.
\<close>

definition edges :: "document \<Rightarrow> (node \<times> node) set" where
  "edges d = {(p, c). c < nextNode d \<and> parentOf d c = Some p}"

definition treeInv :: "document \<Rightarrow> bool" where
  "treeInv d \<longleftrightarrow>
     documentElement d < nextNode d \<and> body d < nextNode d \<and>
     parentOf d (documentElement d) = None \<and>
     parentOf d (body d) = Some (documentElement d) \<and>
     (\<forall>n<nextNode d. \<forall>c\<in>set (childrenOf d n). c < nextNode d \<and> parentOf d c = Some n) \<and>
     (\<forall>n<nextNode d. \<forall>p. parentOf d n = Some p \<longrightarrow> p < nextNode d \<and> n \<in> set (childrenOf d p)) \<and>
     (\<forall>n<nextNode d. distinct (childrenOf d n)) \<and>
     (\<forall>n<nextNode d. \<forall>r. contentDocument (elements d n) = Some r \<longrightarrow> r < nextNode d) \<and>
     acyclic (edges d)"

text \<open>
  \<open>wellFormedPage\<close> is a test for a page as loaded, before the script has run: a forest
  whose nodes are numbered parents first, with no element carrying the overlay's id and
  no listener of the script attached.
\<close>

definition nodeOk :: "document \<Rightarrow> node \<Rightarrow> bool" where
  "nodeOk d n =
     (list_all (\<lambda>c. c < nextNode d \<and> parentOf d c = Some n) (childrenOf d n) \<and>
      distinct (childrenOf d n) \<and>
      (case parentOf d n of None \<Rightarrow> True | Some p \<Rightarrow> p < n \<and> n \<in> set (childrenOf d p)) \<and>
      (case contentDocument (elements d n) of None \<Rightarrow> True | Some r \<Rightarrow> r < nextNode d) \<and>
      elemId (elements d n) \<noteq> OVERLAY_ID \<and>
      clickListeners (elements d n) = [])"

definition wellFormedPage :: "document \<Rightarrow> bool" where
  "wellFormedPage d =
     (documentElement d < nextNode d \<and> body d < nextNode d \<and>
      parentOf d (documentElement d) = None \<and>
      parentOf d (body d) = Some (documentElement d) \<and>
      list_all (nodeOk d) [0..<nextNode d])"

section \<open>Auxiliary notions for the session\<close>

text \<open>
  \<open>stripMarkers\<close> removes the three marker classes, as the three \<^verbatim>\<open>classList.remove\<close>
  calls of \<^verbatim>\<open>restoreElementState\<close> do; \<open>restoredAttrs\<close> is the document after the
  attribute part of that function, before the node is moved.
\<close>

definition stripMarkers :: "string list \<Rightarrow> string list" where
  "stripMarkers cs =
     removeAll ''pane-fullscreen-container''
       (removeAll ''pane-fullscreen-iframe'' (removeAll ''pane-fullscreen-video'' cs))"

definition restoredAttrs :: "document \<Rightarrow> node \<Rightarrow> originalState \<Rightarrow> document" where
  "restoredAttrs d e st =
     upd d e (\<lambda>x. x\<lparr>styleAttr := Some (os_style st), classList := stripMarkers (os_className st)\<rparr>)"

section \<open>Invariants of the session\<close>

text \<open>
  \<open>overlaysInDocument\<close> lists the elements of the document that carry the overlay's id.

  \<open>overlayInv d ov\<close>: every element with the overlay's id was made by
  \<^verbatim>\<open>createOverlay\<close> (a \<^verbatim>\<open>div\<close> with the overlay's classes and no listener of pick mode)
  and is either detached or the child of the body that the variable \<^verbatim>\<open>overlay\<close> names.

  \<open>sessionInv d e st ov ec\<close>: the node \<open>e\<close> sits in the holder \<open>ec\<close> of the overlay
  \<open>ov\<close>, which hangs under the body; the parent recorded in the snapshot \<open>st\<close> is not
  below \<open>e\<close>, and the recorded next sibling is not the overlay and is still a child of
  that parent unless it is an older overlay element.
\<close>

definition overlaysInDocument :: "document \<Rightarrow> node list" where
  "overlaysInDocument d =
     filter (\<lambda>n. elemId (elements d n) = OVERLAY_ID) (treeOrder d (documentElement d))"

definition overlayInv :: "document \<Rightarrow> node option \<Rightarrow> bool" where
  "overlayInv d ov \<longleftrightarrow>
     (\<forall>n<nextNode d. elemId (elements d n) = OVERLAY_ID \<longrightarrow>
        n \<noteq> documentElement d \<and> tagName (elements d n) = ''DIV'' \<and>
        set (classList (elements d n)) \<subseteq> {''pane-fullscreen-overlay'', ''active''} \<and>
        clickListeners (elements d n) = [] \<and>
        (parentOf d n = None \<or> (parentOf d n = Some (body d) \<and> ov = Some n)))"

definition sessionInv :: "document \<Rightarrow> node \<Rightarrow> originalState \<Rightarrow> node \<Rightarrow> node \<Rightarrow> bool" where
  "sessionInv d e st ov ec \<longleftrightarrow>
     e < nextNode d \<and> ov < nextNode d \<and> ec < nextNode d \<and>
     elemId (elements d ov) = OVERLAY_ID \<and> elemId (elements d e) \<noteq> OVERLAY_ID \<and>
     parentOf d ov = Some (body d) \<and> parentOf d ec = Some ov \<and> parentOf d e = Some ec \<and>
     (\<forall>p. os_parent st = Some p \<longrightarrow>
        p < nextNode d \<and> (e, p) \<notin> (edges d)\<^sup>* \<and>
        (\<forall>sb. os_nextSibling st = Some sb \<longrightarrow>
           sb \<noteq> e \<and> sb \<noteq> ov \<and> sb < nextNode d \<and>
           (parentOf d sb = Some p \<or> elemId (elements d sb) = OVERLAY_ID)))"

definition Inv :: "state \<Rightarrow> bool" where
  "Inv s \<longleftrightarrow>
     treeInv (doc s) \<and> overlayInv (doc s) (overlay s) \<and>
     (\<forall>ov. overlay s = Some ov \<longrightarrow> ov < nextNode (doc s)) \<and>
     (isActive s \<longrightarrow>
        (\<exists>e st ov ec. currentElement s = Some e \<and> originalElementState s = Some st \<and>
           overlay s = Some ov \<and> elementContainer s = Some ec \<and>
           sessionInv (doc s) e st ov ec))"

text \<open>
  Stages of \<^verbatim>\<open>createOverlay\<close>, named for the proofs: the document without the existing
  overlay (what \<^verbatim>\<open>removeOverlay\<close> leaves), the document once the four new elements
  exist (overlay, holder, close button and hint, at the next four nodes), and the document
  once they are attached.
\<close>

definition overlayElements :: "document \<Rightarrow> document" where
  "overlayElements d0 =
     (let (ov, d) = createElement d0 ''DIV'';
          d = upd d ov (\<lambda>e. e\<lparr>elemId := OVERLAY_ID, classList := [''pane-fullscreen-overlay'']\<rparr>);
          (ec, d) = createElement d ''DIV'';
          d = upd d ec (\<lambda>e. e\<lparr>elemId := CONTAINER_ID,
                                classList := [''pane-fullscreen-video-container'']\<rparr>);
          (closeBtn, d) = createElement d ''BUTTON'';
          d = upd d closeBtn (\<lambda>e. e\<lparr>classList := [''pane-fullscreen-close-btn'']\<rparr>);
          (hint, d) = createElement d ''DIV''
      in upd d hint (\<lambda>e. e\<lparr>classList := [''pane-fullscreen-hint'']\<rparr>))"

definition withoutOverlay :: "document \<Rightarrow> document" where
  "withoutOverlay d =
     (case getElementById d OVERLAY_ID of
        None \<Rightarrow> d
      | Some existingOverlay \<Rightarrow> removeNode d existingOverlay)"

definition overlayAttached :: "document \<Rightarrow> document" where
  "overlayAttached d0 =
     (let N = nextNode d0;
          d = overlayElements d0;
          d = insertNode d N (Suc N) None;
          d = insertNode d N (Suc (Suc N)) None;
          d = insertNode d N (Suc (Suc (Suc N))) None
      in insertNode d (body d) N None)"

text \<open>
  \<open>sessionDocument d e type\<close> is the document \<^verbatim>\<open>enterPaneFullscreen\<close> leaves when it
  returns normally from the document \<open>d\<close> with no session active. \<open>attrOnly d n f\<close>: the
  change \<open>f\<close> of node \<open>n\<close> touches neither the tree, the id nor the tag, and keeps an
  overlay element as \<^verbatim>\<open>createOverlay\<close> made it.
\<close>

definition sessionDocument :: "document \<Rightarrow> node \<Rightarrow> string \<Rightarrow> document" where
  "sessionDocument d e type =
     (let st = saveElementState d e;
          d1 = classListAdd (overlayAttached (withoutOverlay d)) e (markerClass type);
          d2 = insertNode d1 (Suc (nextNode d)) e None
      in if type = ''video'' \<and> os_wasPlaying st = Some True then play d2 e else d2)"

definition attrOnly :: "document \<Rightarrow> node \<Rightarrow> (element \<Rightarrow> element) \<Rightarrow> bool" where
  "attrOnly d n f \<longleftrightarrow>
     (let e = elements d n in
      parentNode (f e) = parentNode e \<and> childNodes (f e) = childNodes e \<and>
      contentDocument (f e) = contentDocument e \<and> elemId (f e) = elemId e \<and>
      tagName (f e) = tagName e \<and>
      (elemId e = OVERLAY_ID \<longrightarrow>
         set (classList (f e)) \<subseteq> {''pane-fullscreen-overlay'', ''active''} \<and>
         clickListeners (f e) = []))"

text \<open>
  \<open>siblingInPlace d st\<close>: the next sibling recorded in the snapshot, if any, is still a
  child of the recorded parent. \<open>reinserted d e st\<close> is the document once
  \<^verbatim>\<open>exitPaneFullscreen\<close> has put the node back and resumed its playback,
  \<open>exitDocument d e st\<close> the document it leaves when it returns normally.
\<close>

definition siblingInPlace :: "document \<Rightarrow> originalState \<Rightarrow> bool" where
  "siblingInPlace d st =
     (case os_parent st of
        None \<Rightarrow> True
      | Some p \<Rightarrow>
          (case os_nextSibling st of None \<Rightarrow> True | Some sb \<Rightarrow> parentOf d sb = Some p))"

definition reinserted :: "document \<Rightarrow> node \<Rightarrow> originalState \<Rightarrow> document" where
  "reinserted d e st =
     (let d1 = (case os_parent st of
                  None \<Rightarrow> restoredAttrs d e st
                | Some p \<Rightarrow> insertNode (restoredAttrs d e st) p e (os_nextSibling st))
      in if os_type st = ''video'' \<and> os_wasPlaying st = Some True then play d1 e else d1)"

definition exitDocument :: "document \<Rightarrow> node \<Rightarrow> originalState \<Rightarrow> document" where
  "exitDocument d e st = withoutOverlay (reinserted d e st)"


section \<open>Reachable states and sample sessions\<close>

text \<open>
  \<open>layoutChange\<close> is what the page and the browser do to a node between two steps of the
  script, as far as the script can see it: a new bounding box and a new playback state.
  The pages considered keep their own tree, ids and classes as they are.

  \<open>reachable\<close>: the states of the script on a well-formed page. A step is a message of
  the popup, a click on an element (its listeners of pick mode run), a click on the close
  button or on the backdrop of the overlay (\<^verbatim>\<open>exitPaneFullscreen\<close>), a key press, one
  of the timers of pick mode, the animation frame, the timer of a hint, or a change of
  layout.
\<close>

definition layoutChange ::
  "node \<Rightarrow> DOMRect \<Rightarrow> bool \<Rightarrow> bool \<Rightarrow> duration \<Rightarrow> real \<Rightarrow> state \<Rightarrow> state" where
  "layoutChange n r p en du ct s =
     s\<lparr>doc := upd (doc s) n
               (\<lambda>e. e\<lparr>clientRect := r, paused := p, ended := en, mediaDuration := du,
                      currentTime := ct\<rparr>)\<rparr>"

inductive reachable :: "state \<Rightarrow> bool" where
  start: "wellFormedPage d \<Longrightarrow> reachable (initialState d)"
| message: "reachable s \<Longrightarrow> reachable (snd (onMessage r s))"
| clicked: "reachable s \<Longrightarrow> element < nextNode (doc s) \<Longrightarrow> reachable (click element s)"
| closed: "reachable s \<Longrightarrow> reachable (snd (exitPaneFullscreen s))"
| key: "reachable s \<Longrightarrow> reachable (keydown k s)"
| timer: "reachable s \<Longrightarrow> reachable (timerFired s)"
| frame: "reachable s \<Longrightarrow> reachable (animationFrame s)"
| hint: "reachable s \<Longrightarrow> h < nextNode (doc s) \<Longrightarrow>
         ''pane-fullscreen-hint'' \<in> set (classList (elements (doc s) h)) \<Longrightarrow>
         reachable (hintTimerFired h s)"
| layout: "reachable s \<Longrightarrow> n < nextNode (doc s) \<Longrightarrow> reachable (layoutChange n r p en du ct s)"

text \<open>
  \<open>detachedPage\<close> is \<open>samplePage\<close> with one more video, node 5, that is in no tree;
  \<open>detachedSession\<close> is the session entered with it. In \<open>bodyPlayerPage\<close> the body itself
  carries a class of the container selectors, above a smaller \<^verbatim>\<open>#player\<close> box, and there
  is no video or frame. \<open>sampleSession\<close> is the state after the popup's request on
  \<open>samplePage\<close>; \<open>staleSession\<close> is the state on \<open>bodyPlayerPage\<close> after the popup's
  request, a layout change that collapses the body, and the popup's request again;
  \<open>stalePage\<close> is the document before that last request.
\<close>

definition detachedPage :: document where
  "detachedPage =
     samplePage\<lparr>elements := (elements samplePage)
                   (5 := (sampleElement ''VIDEO'' None [])\<lparr>clientRect := box 0 0 800 450\<rparr>),
                 nextNode := 6\<rparr>"

definition detachedSession :: state where
  "detachedSession = snd (enterPaneFullscreen (Some 5) ''video'' (initialState detachedPage))"

definition bodyPlayerPage :: document where
  "bodyPlayerPage =
     \<lparr>elements = (\<lambda>n. blankElement ''#text'')
        (0 := sampleElement ''HTML'' None [1],
         1 := (sampleElement ''BODY'' (Some 0) [2])
                \<lparr>clientRect := box 0 0 1280 720, classList := [''video-player'']\<rparr>,
         2 := (sampleElement ''DIV'' (Some 1) [])
                \<lparr>clientRect := box 0 0 1280 600, elemId := ''player''\<rparr>),
      nextNode = 3, documentElement = 0, body = 1, innerWidth = 1280, innerHeight = 720\<rparr>"

definition stalePage :: document where
  "stalePage =
     \<lparr>elements = (\<lambda>n. blankElement ''#text'')
        (0 := sampleElement ''HTML'' None [1],
         1 := (sampleElement ''BODY'' (Some 0) [2, 3])
                \<lparr>clientRect := box 0 0 0 0,
                  classList := [''video-player'', ''pane-fullscreen-container'']\<rparr>,
         2 := (sampleElement ''DIV'' (Some 1) [])
                \<lparr>clientRect := box 0 0 1280 600, elemId := ''player''\<rparr>,
         3 := (sampleElement ''DIV'' (Some 1) [4, 5, 6])
                \<lparr>elemId := OVERLAY_ID, classList := [''pane-fullscreen-overlay'']\<rparr>,
         4 := (sampleElement ''DIV'' (Some 3) [])
                \<lparr>elemId := CONTAINER_ID, classList := [''pane-fullscreen-video-container'']\<rparr>,
         5 := (sampleElement ''BUTTON'' (Some 3) [])
                \<lparr>classList := [''pane-fullscreen-close-btn'']\<rparr>,
         6 := (sampleElement ''DIV'' (Some 3) [])\<lparr>classList := [''pane-fullscreen-hint'']\<rparr>),
      nextNode = 7, documentElement = 0, body = 1, innerWidth = 1280, innerHeight = 720\<rparr>"

definition staleSession :: state where
  "staleSession =
     snd (onMessage AutoFullscreen
            (layoutChange 1 (box 0 0 0 0) True False NotANumber 0
               (snd (onMessage AutoFullscreen (initialState bodyPlayerPage)))))"

definition sampleSession :: state where
  "sampleSession = snd (onMessage AutoFullscreen (initialState samplePage))"

section \<open>Scorer and Selector\<close>

lemma bestLoop_none:
  "\<forall>x\<in>set xs. getElementScore d x \<le> bs \<Longrightarrow> bestLoop d xs (b, bs) = (b, bs)"
  by (induction xs arbitrary: b bs) auto

lemma bestLoop_some:
  "\<exists>x\<in>set xs. getElementScore d x > bs \<Longrightarrow>
   \<exists>y. fst (bestLoop d xs (b, bs)) = Some y \<and> isFirstBest d xs y \<and> getElementScore d y > bs"
proof (induction xs arbitrary: b bs)
  case Nil
  then show ?case by simp
next
  case (Cons x xs)
  show ?case
  proof (cases "getElementScore d x > bs")
    case True
    show ?thesis
    proof (cases "\<exists>z\<in>set xs. getElementScore d z > getElementScore d x")
      case better: True
      from Cons.IH[OF better, of "Some x"] obtain y where
        y: "fst (bestLoop d xs (Some x, getElementScore d x)) = Some y"
           "isFirstBest d xs y" "getElementScore d y > getElementScore d x"
        by blast
      have "x \<noteq> y" using y(3) by auto
      with y True show ?thesis
        by (auto simp: isFirstBest_def Let_def list_all_iff)
    next
      case False
      then have "bestLoop d xs (Some x, getElementScore d x) = (Some x, getElementScore d x)"
        by (intro bestLoop_none) (auto simp: not_less)
      with True False show ?thesis
        by (auto simp: isFirstBest_def Let_def list_all_iff not_less)
    qed
  next
    case False
    with Cons.prems have "\<exists>z\<in>set xs. getElementScore d z > bs" by auto
    from Cons.IH[OF this, of b] obtain y where
      y: "fst (bestLoop d xs (b, bs)) = Some y" "isFirstBest d xs y" "getElementScore d y > bs"
      by blast
    have "x \<noteq> y" using y(3) False by auto
    with y False show ?thesis
      by (auto simp: isFirstBest_def Let_def list_all_iff)
  qed
qed

lemma score_nonneg: "getElementScore d n \<ge> 0"
  by (simp add: getElementScore_def Let_def isVisible_def)


lemma best_pos:
  assumes "\<exists>x\<in>set xs. getElementScore d x > 0"
  shows "\<exists>y. (if xs = [] then None else fst (bestLoop d xs (None, 0))) = Some y \<and>
             isFirstBest d xs y \<and> getElementScore d y > 0"
proof -
  from assms have "xs \<noteq> []" by auto
  with bestLoop_some[OF assms, of None] show ?thesis by simp
qed

lemma best_none:
  assumes "\<not> (\<exists>x\<in>set xs. getElementScore d x > 0)"
  shows "(if xs = [] then None else fst (bestLoop d xs (None, 0))) = None"
proof -
  from assms have "\<forall>x\<in>set xs. getElementScore d x \<le> 0" by (auto simp: not_less)
  from bestLoop_none[OF this] show ?thesis by simp
qed

lemma samplePage_videos: "findAllVideos samplePage = [2]"
  by code_simp

lemma samplePage_iframes: "findVideoIframes samplePage = [3]"
  by code_simp

lemma samplePage_containers: "findVideoContainers samplePage = [4]"
  by code_simp

lemma samplePage_scores:
  "getElementScore samplePage 2 = 360000"
  "getElementScore samplePage 3 = 345600"
  "getElementScore samplePage 4 = 230400"
  by code_simp+

lemma twoVideosPage_videos: "findAllVideos twoVideosPage = [2, 3]"
  by code_simp

lemma twoVideosPage_facts:
  "elements twoVideosPage 2 =
     (sampleElement ''VIDEO'' (Some 1) [])\<lparr>clientRect := box 0 0 800 450, paused := True\<rparr>"
  "elements twoVideosPage 3 =
     (sampleElement ''VIDEO'' (Some 1) [])
       \<lparr>clientRect := box 0 460 400 225, paused := False, mediaDuration := Seconds 120\<rparr>"
  "innerWidth twoVideosPage = 1280" "innerHeight twoVideosPage = 720"
  by (simp_all add: twoVideosPage_def)

text \<open>
  C3. The Scorer returns exactly 0 for an element whose rectangle has a zero dimension or
  does not meet the viewport, whatever its area, kind or playback state.
\<close>

theorem scorer_zero_outside_viewport:
  assumes "rect_width (clientRect (elements d n)) = 0 \<or>
           rect_height (clientRect (elements d n)) = 0 \<or>
           \<not> (rect_top (clientRect (elements d n)) < innerHeight d \<and>
              rect_bottom (clientRect (elements d n)) > 0 \<and>
              rect_left (clientRect (elements d n)) < innerWidth d \<and>
              rect_right (clientRect (elements d n)) > 0)"
  shows "getElementScore d n = 0"
  using assms by (auto simp: getElementScore_def isVisible_def Let_def)

theorem scorer_zero_outside_viewport_witness:
  "\<not> rect_top (clientRect (elements offscreenPage 2)) < innerHeight offscreenPage \<and>
   rect_width (clientRect (elements offscreenPage 2)) *
     rect_height (clientRect (elements offscreenPage 2)) = 2073600 \<and>
   getElementScore offscreenPage 2 = 0 \<and>
   rect_height (clientRect (elements offscreenPage 3)) = 0 \<and>
   getElementScore offscreenPage 3 = 0"
  using scorer_zero_outside_viewport[of offscreenPage 2]
        scorer_zero_outside_viewport[of offscreenPage 3]
  by (simp add: offscreenPage_def sampleElement_def box_def)

text \<open>
  C4. For a visible video the score is the area, doubled when the video is playing and
  multiplied by 1.5 when its duration exceeds 60 seconds. When the videos of the page
  are a paused visible 800 by 450 video and a playing visible 400 by 225 video longer
  than 60 seconds, the second scores 270000, the first 360000 (540000 if it is itself
  longer than 60 seconds), and the Selector returns the first.
\<close>

theorem video_score_multipliers:
  "(tagName (elements d n) = ''VIDEO'' \<and> isVisible d (clientRect (elements d n)) \<longrightarrow>
      getElementScore d n =
        rect_width (clientRect (elements d n)) * rect_height (clientRect (elements d n)) *
        (if \<not> paused (elements d n) \<and> \<not> ended (elements d n) then 2 else 1) *
        (if exceeds (mediaDuration (elements d n)) 60 then 1.5 else 1)) \<and>
   (set (findAllVideos d) = {a, b} \<and>
    tagName (elements d a) = ''VIDEO'' \<and> isVisible d (clientRect (elements d a)) \<and>
    rect_width (clientRect (elements d a)) = 800 \<and>
    rect_height (clientRect (elements d a)) = 450 \<and>
    paused (elements d a) \<and>
    tagName (elements d b) = ''VIDEO'' \<and> isVisible d (clientRect (elements d b)) \<and>
    rect_width (clientRect (elements d b)) = 400 \<and>
    rect_height (clientRect (elements d b)) = 225 \<and>
    \<not> paused (elements d b) \<and> \<not> ended (elements d b) \<and>
    exceeds (mediaDuration (elements d b)) 60 \<longrightarrow>
      getElementScore d b = 270000 \<and>
      getElementScore d a = (if exceeds (mediaDuration (elements d a)) 60 then 540000 else 360000) \<and>
      findBestPlayableElement d = Some (a, ''video''))"
  (is "(?A \<longrightarrow> ?B) \<and> (?H \<longrightarrow> ?C)")
proof -
  have p1: "?A \<longrightarrow> ?B"
    by (simp add: getElementScore_def Let_def)
  have p2: "?H \<longrightarrow> ?C"
  proof
    assume h: ?H
    have sb: "getElementScore d b = 270000"
      using h by (simp add: getElementScore_def Let_def)
    have sa: "getElementScore d a =
                (if exceeds (mediaDuration (elements d a)) 60 then 540000 else 360000)"
      using h by (simp add: getElementScore_def Let_def)
    have "\<exists>x\<in>set (findAllVideos d). getElementScore d x > 0"
      using h sb by auto
    from best_pos[OF this] obtain y where
      y: "findBestVideo d = Some y" "isFirstBest d (findAllVideos d) y"
      by (auto simp: findBestVideo_def Let_def)
    have "y = a"
    proof (rule ccontr)
      assume "y \<noteq> a"
      with y(2) h have "y = b" by (auto simp: isFirstBest_def)
      moreover have "getElementScore d a \<le> getElementScore d y"
        using y(2) h by (auto simp: isFirstBest_def list_all_iff)
      ultimately show False using sa sb by (auto split: if_splits)
    qed
    with y(1) have "findBestPlayableElement d = Some (a, ''video'')"
      by (simp add: findBestPlayableElement_def)
    with sa sb show ?C by simp
  qed
  from p1 p2 show ?thesis by blast
qed

theorem video_score_multipliers_witness:
  "set (findAllVideos twoVideosPage) = {2, 3} \<and>
   isVisible twoVideosPage (clientRect (elements twoVideosPage 2)) \<and>
   paused (elements twoVideosPage 2) \<and>
   isVisible twoVideosPage (clientRect (elements twoVideosPage 3)) \<and>
   \<not> paused (elements twoVideosPage 3) \<and>
   exceeds (mediaDuration (elements twoVideosPage 3)) 60 \<and>
   getElementScore twoVideosPage 3 = 270000 \<and>
   getElementScore twoVideosPage 2 = 360000 \<and>
   findBestPlayableElement twoVideosPage = Some (2, ''video'')"
  using video_score_multipliers[of twoVideosPage 2 2 3]
  by (simp add: twoVideosPage_videos twoVideosPage_facts sampleElement_def blankElement_def
      box_def isVisible_def rect_right_def rect_bottom_def)

text \<open>
  C2. The Selector returns a video whenever some video scores above 0, otherwise an
  iframe whenever some player frame scores above 0, otherwise a container whenever some
  container scores above 0, otherwise nothing; within a tier it returns the first
  candidate, in scan order, that has the highest score.
\<close>

theorem selector_tiers:
  "((\<exists>v\<in>set (findAllVideos d). getElementScore d v > 0) \<longrightarrow>
      (\<exists>v. findBestPlayableElement d = Some (v, ''video'') \<and>
           isFirstBest d (findAllVideos d) v \<and> getElementScore d v > 0)) \<and>
   (\<not> (\<exists>v\<in>set (findAllVideos d). getElementScore d v > 0) \<and>
    (\<exists>f\<in>set (findVideoIframes d). getElementScore d f > 0) \<longrightarrow>
      (\<exists>f. findBestPlayableElement d = Some (f, ''iframe'') \<and>
           isFirstBest d (findVideoIframes d) f \<and> getElementScore d f > 0)) \<and>
   (\<not> (\<exists>v\<in>set (findAllVideos d). getElementScore d v > 0) \<and>
    \<not> (\<exists>f\<in>set (findVideoIframes d). getElementScore d f > 0) \<and>
    (\<exists>c\<in>set (findVideoContainers d). getElementScore d c > 0) \<longrightarrow>
      (\<exists>c. findBestPlayableElement d = Some (c, ''container'') \<and>
           isFirstBest d (findVideoContainers d) c \<and> getElementScore d c > 0)) \<and>
   (\<not> (\<exists>v\<in>set (findAllVideos d). getElementScore d v > 0) \<and>
    \<not> (\<exists>f\<in>set (findVideoIframes d). getElementScore d f > 0) \<and>
    \<not> (\<exists>c\<in>set (findVideoContainers d). getElementScore d c > 0) \<longrightarrow>
      findBestPlayableElement d = None)"
proof -
  have v1: "\<exists>v. findBestVideo d = Some v \<and> isFirstBest d (findAllVideos d) v \<and>
                getElementScore d v > 0"
    if "\<exists>v\<in>set (findAllVideos d). getElementScore d v > 0"
    using best_pos[OF that] by (simp add: findBestVideo_def Let_def)
  have v0: "findBestVideo d = None"
    if "\<not> (\<exists>v\<in>set (findAllVideos d). getElementScore d v > 0)"
    using best_none[OF that] by (simp add: findBestVideo_def Let_def)
  have f1: "\<exists>v. findBestIframe d = Some v \<and> isFirstBest d (findVideoIframes d) v \<and>
                getElementScore d v > 0"
    if "\<exists>v\<in>set (findVideoIframes d). getElementScore d v > 0"
    using best_pos[OF that] by (simp add: findBestIframe_def Let_def)
  have f0: "findBestIframe d = None"
    if "\<not> (\<exists>v\<in>set (findVideoIframes d). getElementScore d v > 0)"
    using best_none[OF that] by (simp add: findBestIframe_def Let_def)
  have c1: "\<exists>v. findBestContainer d = Some v \<and> isFirstBest d (findVideoContainers d) v \<and>
                getElementScore d v > 0"
    if "\<exists>v\<in>set (findVideoContainers d). getElementScore d v > 0"
    using best_pos[OF that] by (simp add: findBestContainer_def Let_def)
  have c0: "findBestContainer d = None"
    if "\<not> (\<exists>v\<in>set (findVideoContainers d). getElementScore d v > 0)"
    using best_none[OF that] by (simp add: findBestContainer_def Let_def)
  show ?thesis
  proof (intro conjI impI)
    assume "\<exists>v\<in>set (findAllVideos d). getElementScore d v > 0"
    from v1[OF this] show "\<exists>v. findBestPlayableElement d = Some (v, ''video'') \<and>
           isFirstBest d (findAllVideos d) v \<and> getElementScore d v > 0"
      by (auto simp: findBestPlayableElement_def)
  next
    assume a: "\<not> (\<exists>v\<in>set (findAllVideos d). getElementScore d v > 0) \<and>
      (\<exists>f\<in>set (findVideoIframes d). getElementScore d f > 0)"
    from v0 f1 a show "\<exists>f. findBestPlayableElement d = Some (f, ''iframe'') \<and>
           isFirstBest d (findVideoIframes d) f \<and> getElementScore d f > 0"
      by (auto simp: findBestPlayableElement_def)
  next
    assume a: "\<not> (\<exists>v\<in>set (findAllVideos d). getElementScore d v > 0) \<and>
      \<not> (\<exists>f\<in>set (findVideoIframes d). getElementScore d f > 0) \<and>
      (\<exists>c\<in>set (findVideoContainers d). getElementScore d c > 0)"
    from v0 f0 c1 a show "\<exists>c. findBestPlayableElement d = Some (c, ''container'') \<and>
           isFirstBest d (findVideoContainers d) c \<and> getElementScore d c > 0"
      by (auto simp: findBestPlayableElement_def)
  next
    assume a: "\<not> (\<exists>v\<in>set (findAllVideos d). getElementScore d v > 0) \<and>
      \<not> (\<exists>f\<in>set (findVideoIframes d). getElementScore d f > 0) \<and>
      \<not> (\<exists>c\<in>set (findVideoContainers d). getElementScore d c > 0)"
    from v0 f0 c0 a show "findBestPlayableElement d = None"
      by (auto simp: findBestPlayableElement_def)
  qed
qed

theorem selector_tiers_witness:
  "(\<exists>v\<in>set (findAllVideos samplePage). getElementScore samplePage v > 0) \<and>
   (\<exists>f\<in>set (findVideoIframes samplePage). getElementScore samplePage f > 0) \<and>
   (\<exists>c\<in>set (findVideoContainers samplePage). getElementScore samplePage c > 0) \<and>
   findBestPlayableElement samplePage = Some (2, ''video'')"
  using selector_tiers[of samplePage]
  by (simp add: samplePage_videos samplePage_iframes samplePage_containers samplePage_scores
      isFirstBest_def)


section \<open>Scanner lists\<close>

lemma find_not_None: "(find P xs \<noteq> None) = (\<exists>x\<in>set xs. P x)"
  by (auto simp: find_None_iff)

text \<open>
  C8 (as amended). An element is in the Scanner's container list exactly when it is in
  the document, matches one of the container selectors, and either its box is at least
  200 by 150 or it has a frame or video among its descendants, at any depth.
\<close>

theorem container_list_membership:
  "c \<in> set (findVideoContainers d) \<longleftrightarrow>
     c \<in> set (treeOrder d (documentElement d)) \<and>
     matchesAny VIDEO_CONTAINER_SELECTORS (elements d c) \<and>
     ((rect_width (clientRect (elements d c)) \<ge> 200 \<and>
       rect_height (clientRect (elements d c)) \<ge> 150) \<or>
      (\<exists>m\<in>set (descendants d c). isMedia (elements d m)))"
  unfolding findVideoContainers_def querySelectorAll_def containerQualifies_def
    querySelector_def matchesAny_def Let_def find_not_None
  by (auto simp: list_ex_iff)

text \<open>
  C8 as stated fails: in \<open>nestedMediaPage\<close> the container \<^verbatim>\<open>#player\<close> is 100 by 100 and
  its only child is a plain \<^verbatim>\<open>div\<close> that holds the video, yet it is listed.
\<close>

theorem container_with_nested_media_counterexample:
  "2 \<in> set (findVideoContainers nestedMediaPage) \<and>
   matchesAny VIDEO_CONTAINER_SELECTORS (elements nestedMediaPage 2) \<and>
   \<not> (rect_width (clientRect (elements nestedMediaPage 2)) \<ge> 200 \<and>
      rect_height (clientRect (elements nestedMediaPage 2)) \<ge> 150) \<and>
   \<not> directlyContainsMedia nestedMediaPage 2"
  by code_simp

lemma foldl_addContainer:
  "foldl (addContainer d) els cs =
     els @ map (\<lambda>c. (c, ''container''))
             (filter (\<lambda>c. \<not> list_ex (\<lambda>e. snd e = ''iframe'' \<and> contains d c (fst e)) els) cs)"
proof (induction cs arbitrary: els)
  case Nil
  then show ?case by simp
next
  case (Cons c cs)
  show ?case
  proof (cases "list_ex (\<lambda>e. snd e = ''iframe'' \<and> contains d c (fst e)) els")
    case True
    then have "addContainer d els c = els" by (simp add: addContainer_def)
    with True show ?thesis by (simp add: Cons.IH)
  next
    case False
    then have step: "addContainer d els c = els @ [(c, ''container'')]"
      by (simp add: addContainer_def)
    have "list_ex (\<lambda>e. snd e = ''iframe'' \<and> contains d x (fst e)) (els @ [(c, ''container'')])
          = list_ex (\<lambda>e. snd e = ''iframe'' \<and> contains d x (fst e)) els" for x
      by (simp add: list_ex_iff)
    with False step show ?thesis by (simp add: Cons.IH)
  qed
qed

text \<open>
  C9 (as amended). \<^verbatim>\<open>getAllSelectableElements\<close> lists the videos, then the player
  frames, then every listed container that does not contain, in the DOM tree, any of the
  listed frames; so no container of the result contains a frame of the result.
\<close>

theorem selectable_elements_listing:
  "getAllSelectableElements d =
     map (\<lambda>v. (v, ''video'')) (findAllVideos d) @
     map (\<lambda>i. (i, ''iframe'')) (findVideoIframes d) @
     map (\<lambda>c. (c, ''container''))
       (filter (\<lambda>c. \<not> (\<exists>f\<in>set (findVideoIframes d). contains d c f))
          (findVideoContainers d)) \<and>
   (\<forall>c f. (c, ''container'') \<in> set (getAllSelectableElements d) \<and>
          (f, ''iframe'') \<in> set (getAllSelectableElements d) \<longrightarrow> \<not> contains d c f)"
proof -
  have eq: "(\<lambda>c. \<not> list_ex (\<lambda>e. snd e = ''iframe'' \<and> contains d c (fst e))
                 (map (\<lambda>v. (v, ''video'')) (findAllVideos d) @
                  map (\<lambda>i. (i, ''iframe'')) (findVideoIframes d)))
          = (\<lambda>c. \<not> (\<exists>f\<in>set (findVideoIframes d). contains d c f))"
    by (intro ext) (simp add: list_ex_iff bex_Un)
  have l: "getAllSelectableElements d =
     map (\<lambda>v. (v, ''video'')) (findAllVideos d) @
     map (\<lambda>i. (i, ''iframe'')) (findVideoIframes d) @
     map (\<lambda>c. (c, ''container''))
       (filter (\<lambda>c. \<not> (\<exists>f\<in>set (findVideoIframes d). contains d c f))
          (findVideoContainers d))"
    unfolding getAllSelectableElements_def foldl_addContainer eq by simp
  show ?thesis
    apply (rule conjI[OF l])
    apply (subst l, subst l)
    apply auto
    done
qed

lemma playerPage_lists:
  "findAllVideos playerPage = []" "findVideoIframes playerPage = [3]"
  "findVideoContainers playerPage = [4, 2]"
  "contains playerPage 2 3" "\<not> contains playerPage 4 3"
  by code_simp+

theorem selectable_elements_listing_witness:
  "(4, ''container'') \<in> set (getAllSelectableElements playerPage) \<and>
   (3, ''iframe'') \<in> set (getAllSelectableElements playerPage) \<and>
   \<not> contains playerPage 4 3 \<and>
   2 \<in> set (findVideoContainers playerPage) \<and> contains playerPage 2 3 \<and>
   (2, ''container'') \<notin> set (getAllSelectableElements playerPage)"
  using selectable_elements_listing[of playerPage]
  by (simp add: playerPage_lists)

text \<open>
  C9 as stated fails: in \<open>overlapPage\<close> the box of the container \<^verbatim>\<open>#player\<close> encloses
  the box of the player frame, which is its sibling, and both are listed.
\<close>

theorem container_around_sibling_frame_counterexample:
  "(3, ''iframe'') \<in> set (getAllSelectableElements overlapPage) \<and>
   (2, ''container'') \<in> set (getAllSelectableElements overlapPage) \<and>
   spatiallyContains (clientRect (elements overlapPage 2)) (clientRect (elements overlapPage 3))"
  by code_simp


section \<open>Pick mode\<close>

lemma enableSelectMode_active:
  "selectMode s \<Longrightarrow> enableSelectMode s = (None, s)"
  by (simp add: enableSelectMode_def)

lemma enableSelectMode_fresh:
  assumes "\<not> selectMode s"
  shows "fst (enableSelectMode s) =
           Some (length (getAllSelectableElements
                   (classListAdd (doc s) (body (doc s)) ''pane-fullscreen-select-mode'')))"
    and "selectMode (snd (enableSelectMode s))"
  using assms by (simp_all add: enableSelectMode_def Let_def)

lemma disableSelectMode_off: "\<not> selectMode (disableSelectMode s)"
  by (simp add: disableSelectMode_def Let_def)

lemma selectVideo_nothing_found:
  assumes "fst (enableSelectMode s) = Some 0"
  shows "fst (onMessage SelectVideo s) = Returned (Result False NoVideosFound)"
    and "\<not> selectMode (snd (onMessage SelectVideo s))"
  using assms by (auto simp: disableSelectMode_off split: prod.splits)

lemma samplePage_selectables:
  "length (getAllSelectableElements
     (classListAdd samplePage (body samplePage) ''pane-fullscreen-select-mode'')) = 3"
  by code_simp

text \<open>
  C7. On \<open>samplePage\<close> the first \<^verbatim>\<open>selectVideo\<close> request enables pick mode and
  returns 3; a second request, with pick mode still active, gets \<^verbatim>\<open>undefined\<close> from
  \<^verbatim>\<open>enableSelectMode\<close> instead of a count and reports success with it.
\<close>

theorem second_enable_returns_undefined:
  "fst (enableSelectMode (initialState samplePage)) = Some 3 \<and>
   selectMode (snd (enableSelectMode (initialState samplePage))) \<and>
   fst (enableSelectMode (snd (enableSelectMode (initialState samplePage)))) = None \<and>
   fst (onMessage SelectVideo (snd (onMessage SelectVideo (initialState samplePage))))
     = Returned (Result True (Found None))"
proof -
  let ?s0 = "initialState samplePage"
  have off: "\<not> selectMode ?s0" by (simp add: initialState_def)
  have d0: "doc ?s0 = samplePage" by (simp add: initialState_def)
  have c: "fst (enableSelectMode ?s0) = Some 3"
    using enableSelectMode_fresh(1)[OF off] samplePage_selectables by (simp add: d0)
  have on: "selectMode (snd (enableSelectMode ?s0))"
    by (rule enableSelectMode_fresh(2)[OF off])
  have m1: "snd (onMessage SelectVideo ?s0) = snd (enableSelectMode ?s0)"
    using c by (auto split: prod.splits)
  have m2: "fst (onMessage SelectVideo (snd (enableSelectMode ?s0)))
              = Returned (Result True (Found None))"
    using enableSelectMode_active[OF on] by simp
  show ?thesis using c on enableSelectMode_active[OF on] m1 m2 by simp
qed

section \<open>Documents as forests\<close>

lemma upd_simps [simp]:
  "elements (upd d n f) m = (if m = n then f (elements d n) else elements d m)"
  "nextNode (upd d n f) = nextNode d"
  "documentElement (upd d n f) = documentElement d"
  "body (upd d n f) = body d"
  "innerWidth (upd d n f) = innerWidth d"
  "innerHeight (upd d n f) = innerHeight d"
  by (simp_all add: upd_def)

lemma wellFormedPage_nodeOk:
  "wellFormedPage d \<Longrightarrow> n < nextNode d \<Longrightarrow> nodeOk d n"
  by (simp add: wellFormedPage_def list_all_iff)

lemma edges_less: "wellFormedPage d \<Longrightarrow> (p, c) \<in> edges d \<Longrightarrow> p < c"
  using wellFormedPage_nodeOk[of d c] by (auto simp: edges_def nodeOk_def)

lemma wellFormedPage_acyclic:
  assumes "wellFormedPage d" shows "acyclic (edges d)"
proof -
  have "edges d \<subseteq> {(p, c). p < c}" using edges_less[OF assms] by auto
  moreover have "acyclic {(p :: nat, c). p < c}"
    using wf_less by (simp add: wf_acyclic less_than_def[symmetric] del: less_than_iff)
  ultimately show ?thesis by (rule acyclic_subset[rotated])
qed

lemma wellFormedPage_treeInv:
  assumes "wellFormedPage d" shows "treeInv d"
  unfolding treeInv_def
  using wellFormedPage_acyclic[OF assms] assms wellFormedPage_nodeOk[OF assms]
  apply (intro conjI)
          apply (simp_all add: wellFormedPage_def)
     apply (force simp: nodeOk_def list_all_iff)
    apply (metis (no_types, lifting) nodeOk_def option.simps(5) less_trans)
   apply (force simp: nodeOk_def)
  apply (force simp: nodeOk_def split: option.splits)
  done

lemma samplePage_wellFormed: "wellFormedPage samplePage"
  by code_simp

lemma parentOf_upd [simp]:
  "parentOf (upd d n f) m = (if m = n then parentNode (f (elements d n)) else parentOf d m)"
  by (simp add: parentOf_def)

lemma childrenOf_upd [simp]:
  "childrenOf (upd d n f) m = (if m = n then childNodes (f (elements d n)) else childrenOf d m)"
  by (simp add: childrenOf_def)

subsection \<open>Lists of children\<close>

lemma nextAfter_mem: "nextAfter n xs = Some y \<Longrightarrow> y \<in> set xs"
  by (induction xs) (auto split: if_splits list.splits)

lemma set_insertInto [simp]: "set (insertInto n r xs) = insert n (set xs)"
  by (induction n r xs rule: insertInto.induct) auto

lemma distinct_insertInto:
  "distinct xs \<Longrightarrow> n \<notin> set xs \<Longrightarrow> distinct (insertInto n r xs)"
  by (induction n r xs rule: insertInto.induct) auto


lemma nextAfter_insertInto_Some:
  "n \<notin> set xs \<Longrightarrow> r \<in> set xs \<Longrightarrow> nextAfter n (insertInto n (Some r) xs) = Some r"
  by (induction xs) auto

lemma nextAfter_insertInto_None:
  "n \<notin> set xs \<Longrightarrow> nextAfter n (insertInto n None xs) = None"
  by (induction xs) auto

lemma nextAfter_removeAll:
  "distinct xs \<Longrightarrow> x \<noteq> n \<Longrightarrow> nextAfter n xs \<noteq> Some x \<Longrightarrow>
   nextAfter n (removeAll x xs) = nextAfter n xs"
proof (induction xs)
  case Nil
  then show ?case by simp
next
  case (Cons a xs)
  then show ?case
    by (cases xs) (auto split: if_splits list.splits)
qed

subsection \<open>Walks\<close>

lemma ancestorWalk_refl [simp]: "ancestorWalk k par a a"
  by (cases k) auto

lemma ancestorWalk_sound:
  assumes "\<forall>m<nextNode d. \<forall>p. parentOf d m = Some p \<longrightarrow> p < nextNode d"
  shows "ancestorWalk k (parentOf d) a n \<Longrightarrow> n < nextNode d \<Longrightarrow> (a, n) \<in> (edges d)\<^sup>*"
proof (induction k arbitrary: n)
  case 0
  then show ?case by simp
next
  case (Suc k)
  show ?case
  proof (cases "n = a")
    case True
    then show ?thesis by simp
  next
    case False
    with Suc.prems obtain p where p: "parentOf d n = Some p" "ancestorWalk k (parentOf d) a p"
      by (auto split: option.splits)
    with assms Suc.prems have "p < nextNode d" by blast
    from Suc.IH[OF p(2) this] have "(a, p) \<in> (edges d)\<^sup>*" .
    moreover have "(p, n) \<in> edges d" using p Suc.prems by (simp add: edges_def)
    ultimately show ?thesis by simp
  qed
qed

lemma edges_rtrancl_cases:
  assumes "(a, n) \<in> (edges d)\<^sup>*"
  shows "a = n \<or> (\<exists>p. parentOf d n = Some p \<and> n < nextNode d \<and> (a, p) \<in> (edges d)\<^sup>*)"
proof (cases "a = n")
  case True
  then show ?thesis by simp
next
  case False
  with assms obtain y where "(a, y) \<in> (edges d)\<^sup>*" "(y, n) \<in> edges d"
    by (meson rtranclE)
  then show ?thesis by (simp add: edges_def)
qed

lemma contains_sound:
  "treeInv d \<Longrightarrow> n < nextNode d \<Longrightarrow> contains d a n \<Longrightarrow> (a, n) \<in> (edges d)\<^sup>*"
proof -
  assume t: "treeInv d" and n: "n < nextNode d" and c: "contains d a n"
  from t have "\<forall>m<nextNode d. \<forall>p. parentOf d m = Some p \<longrightarrow> p < nextNode d"
    unfolding treeInv_def by blast
  from ancestorWalk_sound[OF this _ n] c show ?thesis
    by (simp add: contains_def)
qed

lemma parent_not_below:
  assumes "treeInv d" "n < nextNode d" "parentOf d n = Some p"
  shows "(n, p) \<notin> (edges d)\<^sup>*"
proof
  assume "(n, p) \<in> (edges d)\<^sup>*"
  moreover have "(p, n) \<in> edges d" using assms by (simp add: edges_def)
  ultimately have "(n, n) \<in> (edges d)\<^sup>+" by simp
  with assms(1) show False by (simp add: treeInv_def acyclic_def)
qed

subsection \<open>Removing and inserting\<close>

lemma fold_parentOf [simp]: "parentNode (elements d n) = parentOf d n"
  by (simp add: parentOf_def)

lemma fold_childrenOf [simp]: "childNodes (elements d n) = childrenOf d n"
  by (simp add: childrenOf_def)

lemma removeNode_basic [simp]:
  "nextNode (removeNode d n) = nextNode d"
  "documentElement (removeNode d n) = documentElement d"
  "body (removeNode d n) = body d"
  "innerWidth (removeNode d n) = innerWidth d"
  "innerHeight (removeNode d n) = innerHeight d"
  by (simp_all add: removeNode_def split: option.splits)

lemma parentOf_removeNode [simp]:
  "parentOf (removeNode d n) m = (if m = n then None else parentOf d m)"
  by (simp add: removeNode_def split: option.splits)

lemma childrenOf_removeNode [simp]:
  "childrenOf (removeNode d n) m =
     (if parentOf d n = Some m then removeAll n (childrenOf d m) else childrenOf d m)"
  by (simp add: removeNode_def split: option.splits)

lemma elements_removeNode:
  "elements (removeNode d n) m =
     (elements d m)\<lparr>parentNode := parentOf (removeNode d n) m,
                     childNodes := childrenOf (removeNode d n) m\<rparr>"
  by (simp add: removeNode_def split: option.splits)

lemma insertNode_basic [simp]:
  "nextNode (insertNode d p n r) = nextNode d"
  "documentElement (insertNode d p n r) = documentElement d"
  "body (insertNode d p n r) = body d"
  "innerWidth (insertNode d p n r) = innerWidth d"
  "innerHeight (insertNode d p n r) = innerHeight d"
  by (simp_all add: insertNode_def Let_def)

lemma parentOf_insertNode [simp]:
  "parentOf (insertNode d p n r) m = (if m = n then Some p else parentOf d m)"
  by (simp add: insertNode_def Let_def)

lemma childrenOf_insertNode:
  "n \<noteq> p \<Longrightarrow>
   childrenOf (insertNode d p n r) m =
     (if m = p then insertInto n r (if parentOf d n = Some p then removeAll n (childrenOf d p)
                                    else childrenOf d p)
      else if parentOf d n = Some m then removeAll n (childrenOf d m)
      else childrenOf d m)"
  by (simp add: insertNode_def Let_def)

lemma elements_insertNode:
  "elements (insertNode d p n r) m =
     (elements d m)\<lparr>parentNode := parentOf (insertNode d p n r) m,
                     childNodes := childrenOf (insertNode d p n r) m\<rparr>"
  by (simp add: insertNode_def Let_def elements_removeNode)

subsection \<open>The forest invariant under each mutation\<close>

lemma treeInv_child:
  "treeInv d \<Longrightarrow> n < nextNode d \<Longrightarrow> c \<in> set (childrenOf d n) \<Longrightarrow>
   c < nextNode d \<and> parentOf d c = Some n"
  unfolding treeInv_def by blast

lemma treeInv_parent:
  "treeInv d \<Longrightarrow> n < nextNode d \<Longrightarrow> parentOf d n = Some p \<Longrightarrow>
   p < nextNode d \<and> n \<in> set (childrenOf d p)"
  unfolding treeInv_def by blast

lemma treeInv_distinct: "treeInv d \<Longrightarrow> n < nextNode d \<Longrightarrow> distinct (childrenOf d n)"
  unfolding treeInv_def by blast

lemma treeInv_acyclic: "treeInv d \<Longrightarrow> acyclic (edges d)"
  unfolding treeInv_def by blast

lemma treeInv_root:
  assumes "treeInv d"
  shows "documentElement d < nextNode d" "body d < nextNode d"
    "parentOf d (documentElement d) = None" "parentOf d (body d) = Some (documentElement d)"
    "body d \<noteq> documentElement d"
proof -
  from assms have a: "documentElement d < nextNode d \<and> body d < nextNode d \<and>
     parentOf d (documentElement d) = None \<and>
     parentOf d (body d) = Some (documentElement d)"
    unfolding treeInv_def by blast
  then show "documentElement d < nextNode d" "body d < nextNode d"
    "parentOf d (documentElement d) = None" "parentOf d (body d) = Some (documentElement d)"
    by simp_all
  from a show "body d \<noteq> documentElement d" by force
qed

lemma treeInv_contentDocument:
  "treeInv d \<Longrightarrow> n < nextNode d \<Longrightarrow> contentDocument (elements d n) = Some r \<Longrightarrow>
   r < nextNode d"
  unfolding treeInv_def by blast

lemma treeInvI:
  assumes "documentElement d < nextNode d" "body d < nextNode d"
    "parentOf d (documentElement d) = None" "parentOf d (body d) = Some (documentElement d)"
    "\<And>n c. n < nextNode d \<Longrightarrow> c \<in> set (childrenOf d n) \<Longrightarrow>
        c < nextNode d \<and> parentOf d c = Some n"
    "\<And>n p. n < nextNode d \<Longrightarrow> parentOf d n = Some p \<Longrightarrow>
        p < nextNode d \<and> n \<in> set (childrenOf d p)"
    "\<And>n. n < nextNode d \<Longrightarrow> distinct (childrenOf d n)"
    "\<And>n r. n < nextNode d \<Longrightarrow> contentDocument (elements d n) = Some r \<Longrightarrow> r < nextNode d"
    "acyclic (edges d)"
  shows "treeInv d"
  unfolding treeInv_def using assms by blast

lemma treeInv_cong:
  assumes "treeInv d" "nextNode d' = nextNode d" "documentElement d' = documentElement d"
    "body d' = body d" "\<And>m. parentOf d' m = parentOf d m"
    "\<And>m. childrenOf d' m = childrenOf d m"
    "\<And>m. contentDocument (elements d' m) = contentDocument (elements d m)"
  shows "treeInv d'"
proof (rule treeInvI)
  have "edges d' = edges d" using assms(2,5) by (simp add: edges_def)
  then show "acyclic (edges d')" using treeInv_acyclic[OF assms(1)] by simp
next
  fix n c assume "n < nextNode d'" "c \<in> set (childrenOf d' n)"
  then show "c < nextNode d' \<and> parentOf d' c = Some n"
    using treeInv_child[OF assms(1), of n c] by (simp add: assms)
next
  fix n p assume "n < nextNode d'" "parentOf d' n = Some p"
  then show "p < nextNode d' \<and> n \<in> set (childrenOf d' p)"
    using treeInv_parent[OF assms(1), of n p] by (simp add: assms)
next
  fix n assume "n < nextNode d'"
  then show "distinct (childrenOf d' n)"
    using treeInv_distinct[OF assms(1), of n] by (simp add: assms)
next
  fix n r assume "n < nextNode d'" "contentDocument (elements d' n) = Some r"
  then show "r < nextNode d'"
    using treeInv_contentDocument[OF assms(1), of n r] by (simp add: assms)
qed (use treeInv_root[OF assms(1)] in \<open>simp_all add: assms\<close>)

lemma treeInv_upd_attr:
  assumes "treeInv d" "parentNode (f (elements d n)) = parentOf d n"
    "childNodes (f (elements d n)) = childrenOf d n"
    "contentDocument (f (elements d n)) = contentDocument (elements d n)"
  shows "treeInv (upd d n f)"
  using assms by (intro treeInv_cong[OF assms(1)]) auto

lemma edges_removeNode: "edges (removeNode d n) \<subseteq> edges d"
  by (auto simp: edges_def split: if_splits)

lemma treeInv_removeNode:
  assumes t: "treeInv d" and n: "n \<noteq> body d"
  shows "treeInv (removeNode d n)"
proof (rule treeInvI)
  show "acyclic (edges (removeNode d n))"
    using treeInv_acyclic[OF t] edges_removeNode by (rule acyclic_subset)
next
  fix m c assume "m < nextNode (removeNode d n)" "c \<in> set (childrenOf (removeNode d n) m)"
  then show "c < nextNode (removeNode d n) \<and> parentOf (removeNode d n) c = Some m"
    using treeInv_child[OF t, of m c] by (auto split: if_splits)
next
  fix m p assume "m < nextNode (removeNode d n)" "parentOf (removeNode d n) m = Some p"
  then show "p < nextNode (removeNode d n) \<and> m \<in> set (childrenOf (removeNode d n) p)"
    using treeInv_parent[OF t, of m p] by (auto split: if_splits)
next
  fix m assume "m < nextNode (removeNode d n)"
  then show "distinct (childrenOf (removeNode d n) m)"
    using treeInv_distinct[OF t, of m] by (auto simp: distinct_removeAll)
next
  fix m r assume "m < nextNode (removeNode d n)"
    "contentDocument (elements (removeNode d n) m) = Some r"
  then show "r < nextNode (removeNode d n)"
    using treeInv_contentDocument[OF t, of m r] by (simp add: elements_removeNode)
qed (use treeInv_root[OF t] n in auto)

lemma edges_insertNode: "edges (insertNode d p n r) \<subseteq> insert (p, n) (edges d)"
  by (auto simp: edges_def split: if_splits)

lemma treeInv_insertNode:
  assumes t: "treeInv d" and n: "n < nextNode d" and p: "p < nextNode d"
    and np: "(n, p) \<notin> (edges d)\<^sup>*"
    and nb: "n \<noteq> body d" and nr: "n \<noteq> documentElement d"
  shows "treeInv (insertNode d p n r)"
proof (rule treeInvI)
  have neq: "n \<noteq> p" using np by auto
  note ch = childrenOf_insertNode[OF neq]
  have notin: "parentOf d n \<noteq> Some m \<Longrightarrow> m < nextNode d \<Longrightarrow> n \<notin> set (childrenOf d m)" for m
    using treeInv_child[OF t, of m n] by auto
  show "acyclic (edges (insertNode d p n r))"
  proof (rule acyclic_subset[OF _ edges_insertNode])
    show "acyclic (insert (p, n) (edges d))"
      using treeInv_acyclic[OF t] np by simp
  qed
  {
    fix m c assume m: "m < nextNode (insertNode d p n r)"
      and c: "c \<in> set (childrenOf (insertNode d p n r) m)"
    show "c < nextNode (insertNode d p n r) \<and> parentOf (insertNode d p n r) c = Some m"
      using m c n treeInv_child[OF t, of m c] notin[of m]
      by (auto simp: ch split: if_splits)
  }
  {
    fix m q assume m: "m < nextNode (insertNode d p n r)"
      and q: "parentOf (insertNode d p n r) m = Some q"
    show "q < nextNode (insertNode d p n r) \<and> m \<in> set (childrenOf (insertNode d p n r) q)"
      using m q p treeInv_parent[OF t, of m q]
      by (auto simp: ch split: if_splits)
  }
  {
    fix m assume m: "m < nextNode (insertNode d p n r)"
    show "distinct (childrenOf (insertNode d p n r) m)"
      using m treeInv_distinct[OF t, of m] notin[of m]
      by (auto simp: ch distinct_removeAll intro!: distinct_insertInto)
  }
  {
    fix m c assume "m < nextNode (insertNode d p n r)"
      "contentDocument (elements (insertNode d p n r) m) = Some c"
    then show "c < nextNode (insertNode d p n r)"
      using treeInv_contentDocument[OF t, of m c] by (simp add: elements_insertNode)
  }
qed (use treeInv_root[OF t] nb nr in auto)

lemma createElement_simps [simp]:
  "fst (createElement d tag) = nextNode d"
  "nextNode (snd (createElement d tag)) = Suc (nextNode d)"
  "documentElement (snd (createElement d tag)) = documentElement d"
  "body (snd (createElement d tag)) = body d"
  "innerWidth (snd (createElement d tag)) = innerWidth d"
  "innerHeight (snd (createElement d tag)) = innerHeight d"
  "elements (snd (createElement d tag)) m =
     (if m = nextNode d then blankElement tag else elements d m)"
  by (simp_all add: createElement_def)

lemma parentOf_createElement [simp]:
  "parentOf (snd (createElement d tag)) m = (if m = nextNode d then None else parentOf d m)"
  unfolding parentOf_def by (simp add: blankElement_def del: fold_parentOf)

lemma childrenOf_createElement [simp]:
  "childrenOf (snd (createElement d tag)) m = (if m = nextNode d then [] else childrenOf d m)"
  unfolding childrenOf_def by (simp add: blankElement_def del: fold_childrenOf)

lemma edges_createElement: "treeInv d \<Longrightarrow> edges (snd (createElement d tag)) = edges d"
  by (auto simp: edges_def less_Suc_eq split: if_splits)

lemma treeInv_createElement:
  assumes t: "treeInv d"
  shows "treeInv (snd (createElement d tag))"
proof (rule treeInvI)
  show "acyclic (edges (snd (createElement d tag)))"
    using treeInv_acyclic[OF t] edges_createElement[OF t] by simp
next
  fix m c assume "m < nextNode (snd (createElement d tag))"
    "c \<in> set (childrenOf (snd (createElement d tag)) m)"
  then show "c < nextNode (snd (createElement d tag)) \<and>
             parentOf (snd (createElement d tag)) c = Some m"
    using treeInv_child[OF t, of m c] by (auto simp: less_Suc_eq split: if_splits)
next
  fix m p assume "m < nextNode (snd (createElement d tag))"
    "parentOf (snd (createElement d tag)) m = Some p"
  then show "p < nextNode (snd (createElement d tag)) \<and>
             m \<in> set (childrenOf (snd (createElement d tag)) p)"
    using treeInv_parent[OF t, of m p] by (auto simp: less_Suc_eq split: if_splits)
next
  fix m assume "m < nextNode (snd (createElement d tag))"
  then show "distinct (childrenOf (snd (createElement d tag)) m)"
    using treeInv_distinct[OF t, of m] by (auto simp: less_Suc_eq)
next
  fix m r assume "m < nextNode (snd (createElement d tag))"
    "contentDocument (elements (snd (createElement d tag)) m) = Some r"
  then show "r < nextNode (snd (createElement d tag))"
    using treeInv_contentDocument[OF t, of m r]
    by (auto simp: less_Suc_eq blankElement_def split: if_splits)
qed (use treeInv_root[OF t] in \<open>auto simp: less_Suc_eq\<close>)

section \<open>Snapshot and restore\<close>

lemma upd_upd: "upd (upd d n f) n g = upd d n (\<lambda>e. g (f e))"
  by (simp add: upd_def del: fold_parentOf fold_childrenOf)

lemma classListRemove_simps [simp]:
  "nextNode (classListRemove d n c) = nextNode d"
  "documentElement (classListRemove d n c) = documentElement d"
  "body (classListRemove d n c) = body d"
  "parentOf (classListRemove d n c) m = parentOf d m"
  "childrenOf (classListRemove d n c) m = childrenOf d m"
  by (simp_all add: classListRemove_def)

lemma classListAdd_simps [simp]:
  "nextNode (classListAdd d n c) = nextNode d"
  "documentElement (classListAdd d n c) = documentElement d"
  "body (classListAdd d n c) = body d"
  "parentOf (classListAdd d n c) m = parentOf d m"
  "childrenOf (classListAdd d n c) m = childrenOf d m"
  by (simp_all add: classListAdd_def)


lemma contains_cong:
  "nextNode d' = nextNode d \<Longrightarrow> (\<And>m. parentOf d' m = parentOf d m) \<Longrightarrow>
   contains d' a n = contains d a n"
proof -
  assume "nextNode d' = nextNode d" "\<And>m. parentOf d' m = parentOf d m"
  then have "parentOf d' = parentOf d" by (intro ext)
  then show ?thesis using \<open>nextNode d' = nextNode d\<close> by (simp add: contains_def)
qed

lemma restoredAttrs_simps [simp]:
  "nextNode (restoredAttrs d e st) = nextNode d"
  "documentElement (restoredAttrs d e st) = documentElement d"
  "body (restoredAttrs d e st) = body d"
  "parentOf (restoredAttrs d e st) m = parentOf d m"
  "childrenOf (restoredAttrs d e st) m = childrenOf d m"
  by (simp_all add: restoredAttrs_def)

lemma restoreElementState_unfold:
  "restoreElementState d (Some e) (Some st) =
     (case os_parent st of
        None \<Rightarrow> (Returned (), restoredAttrs d e st)
      | Some parent \<Rightarrow>
          (case insertBefore (restoredAttrs d e st) parent e (os_nextSibling st) of
             Inl x \<Rightarrow> (Threw x, restoredAttrs d e st)
           | Inr d' \<Rightarrow> (Returned (), d')))"
  by (simp add: restoreElementState_def Let_def classListRemove_def restoredAttrs_def
      stripMarkers_def upd_upd cong: option.case_cong sum.case_cong)




lemma restore_reinserts:
  assumes t: "treeInv d" and n: "n < nextNode d" and p: "p < nextNode d"
    and par: "os_parent st = Some p" and nc: "\<not> contains d n p"
    and sb: "case os_nextSibling st of None \<Rightarrow> True
             | Some sb \<Rightarrow> sb \<noteq> n \<and> sb \<in> set (childrenOf d p)"
  shows "restoreElementState d (Some n) (Some st) =
           (Returned (), insertNode (restoredAttrs d n st) p n (os_nextSibling st))"
    and "parentOf (insertNode (restoredAttrs d n st) p n (os_nextSibling st)) n = Some p"
    and "nextSibling (insertNode (restoredAttrs d n st) p n (os_nextSibling st)) n
           = os_nextSibling st"
proof -
  let ?d1 = "restoredAttrs d n st"
  have c1: "\<not> contains ?d1 n p" using nc by (simp add: contains_cong[of ?d1 d])
  have neq: "n \<noteq> p" using nc by (auto simp: contains_def)
  have c2: "parentOf ?d1 c = Some p" if "os_nextSibling st = Some c" for c
    using sb that treeInv_child[OF t p, of c] by simp
  have ref: "(if os_nextSibling st = Some n then nextSibling ?d1 n else os_nextSibling st)
               = os_nextSibling st"
    using sb by (auto split: option.splits)
  have "insertBefore ?d1 p n (os_nextSibling st) = Inr (insertNode ?d1 p n (os_nextSibling st))"
    using c1 c2 ref by (auto simp: insertBefore_def Let_def split: option.splits)
  with par show "restoreElementState d (Some n) (Some st) =
           (Returned (), insertNode ?d1 p n (os_nextSibling st))"
    by (simp add: restoreElementState_unfold)
  show "parentOf (insertNode ?d1 p n (os_nextSibling st)) n = Some p" by simp
  let ?cs = "if parentOf d n = Some p then removeAll n (childrenOf d p) else childrenOf d p"
  have notin: "n \<notin> set ?cs"
    using treeInv_child[OF t p, of n] by auto
  have ch: "childrenOf (insertNode ?d1 p n (os_nextSibling st)) p
              = insertInto n (os_nextSibling st) ?cs"
    using neq by (simp add: childrenOf_insertNode)
  have na: "nextAfter n (insertInto n (os_nextSibling st) ?cs) = os_nextSibling st"
  proof (cases "os_nextSibling st")
    case None
    with notin show ?thesis
      by (simp add: nextAfter_insertInto_None del: insertInto.simps)
  next
    case (Some s)
    with sb have "s \<in> set ?cs" by auto
    with notin Some show ?thesis
      by (simp add: nextAfter_insertInto_Some del: insertInto.simps)
  qed
  show "nextSibling (insertNode ?d1 p n (os_nextSibling st)) n = os_nextSibling st"
    unfolding nextSibling_def by (simp add: ch na del: insertInto.simps)
qed

lemma samplePage_treeInv: "treeInv samplePage"
  by (rule wellFormedPage_treeInv[OF samplePage_wellFormed])








section \<open>Finding the overlay\<close>

lemma subtree_bound:
  assumes "\<forall>n<N. \<forall>c\<in>set (ch n). c < N"
  shows "r < N \<Longrightarrow> x \<in> set (subtree k ch r) \<Longrightarrow> x < N"
  using assms by (induction k arbitrary: r) auto

lemma treeOrder_bound:
  assumes t: "treeInv d" and r: "r < nextNode d" and x: "x \<in> set (treeOrder d r)"
  shows "x < nextNode d"
proof -
  have "\<forall>n<nextNode d. \<forall>c\<in>set (childrenOf d n). c < nextNode d"
    using treeInv_child[OF t] by blast
  from subtree_bound[OF this r] x show ?thesis by (simp add: treeOrder_def)
qed

lemma subtree_edges:
  assumes t: "treeInv d"
  shows "r < nextNode d \<Longrightarrow> x \<in> set (subtree k (childrenOf d) r) \<Longrightarrow> (r, x) \<in> (edges d)\<^sup>*"
proof (induction k arbitrary: r)
  case 0
  then show ?case by simp
next
  case (Suc k)
  show ?case
  proof (cases "x = r")
    case True
    then show ?thesis by simp
  next
    case False
    with Suc.prems obtain c where c: "c \<in> set (childrenOf d r)"
      "x \<in> set (subtree k (childrenOf d) c)" by auto
    from treeInv_child[OF t Suc.prems(1) c(1)] have cc: "c < nextNode d" "parentOf d c = Some r"
      by auto
    then have "(r, c) \<in> edges d" by (simp add: edges_def)
    with Suc.IH[OF cc(1) c(2)] show ?thesis by simp
  qed
qed

lemma treeOrder_edges:
  "treeInv d \<Longrightarrow> r < nextNode d \<Longrightarrow> x \<in> set (treeOrder d r) \<Longrightarrow> (r, x) \<in> (edges d)\<^sup>*"
  unfolding treeOrder_def by (rule subtree_edges)

lemma subtree_self: "n \<in> set (subtree k ch n)"
  by (cases k) auto

lemma child_of_body_in_document:
  assumes t: "treeInv d" and x: "x < nextNode d" and p: "parentOf d x = Some (body d)"
  shows "x \<in> set (treeOrder d (documentElement d))"
proof -
  note r = treeInv_root[OF t]
  from r have "2 \<le> nextNode d" by auto
  then obtain k where k: "nextNode d = Suc (Suc k)"
    by (metis add_2_eq_Suc le_Suc_ex)
  have b: "body d \<in> set (childrenOf d (documentElement d))"
    using treeInv_parent[OF t r(2) r(4)] by simp
  have xb: "x \<in> set (childrenOf d (body d))"
    using treeInv_parent[OF t x p] by simp
  have "x \<in> set (subtree (Suc k) (childrenOf d) (body d))"
    using xb subtree_self[of x k "childrenOf d"] by auto
  with b have "x \<in> set (subtree (Suc (Suc k)) (childrenOf d) (documentElement d))"
    unfolding subtree.simps(2)[of "Suc k"] by auto
  then show ?thesis by (simp add: treeOrder_def k)
qed

lemma overlay_in_document:
  assumes t: "treeInv d" and o: "overlayInv d ov"
    and x: "x \<in> set (treeOrder d (documentElement d))"
    and i: "elemId (elements d x) = OVERLAY_ID"
  shows "ov = Some x \<and> parentOf d x = Some (body d)"
proof -
  note r = treeInv_root[OF t]
  have xn: "x < nextNode d" by (rule treeOrder_bound[OF t r(1) x])
  from o xn i have ox: "x \<noteq> documentElement d"
    "parentOf d x = None \<or> (parentOf d x = Some (body d) \<and> ov = Some x)"
    unfolding overlayInv_def by blast+
  from treeOrder_edges[OF t r(1) x] ox(1) have "parentOf d x \<noteq> None"
    using edges_rtrancl_cases[of "documentElement d" x d] by auto
  with ox(2) show ?thesis by simp
qed

lemma find_unique:
  assumes "x \<in> set xs" "P x" "\<And>y. y \<in> set xs \<Longrightarrow> P y \<Longrightarrow> y = x"
  shows "find P xs = Some x"
proof -
  from assms(1,2) have "find P xs \<noteq> None" by (auto simp: find_None_iff)
  then obtain y where y: "find P xs = Some y" by auto
  then have "y \<in> set xs" "P y" by (auto simp: find_Some_iff)
  with assms(3) y show ?thesis by simp
qed

lemma getElementById_overlay_Some:
  assumes t: "treeInv d" and o: "overlayInv d ov"
    and x: "x < nextNode d" "elemId (elements d x) = OVERLAY_ID" "parentOf d x = Some (body d)"
  shows "getElementById d OVERLAY_ID = Some x"
  unfolding getElementById_def
proof (rule find_unique)
  show "x \<in> set (treeOrder d (documentElement d))"
    by (rule child_of_body_in_document[OF t x(1,3)])
  show "elemId (elements d x) = OVERLAY_ID" by (rule x(2))
  fix y assume "y \<in> set (treeOrder d (documentElement d))" "elemId (elements d y) = OVERLAY_ID"
  from overlay_in_document[OF t o this] have "ov = Some y" by simp
  moreover from o x have "ov = Some x" unfolding overlayInv_def by auto
  ultimately show "y = x" by simp
qed

lemma getElementById_overlay_cases:
  assumes t: "treeInv d" and o: "overlayInv d ov"
  shows "getElementById d OVERLAY_ID = None \<and>
           (\<forall>n<nextNode d. elemId (elements d n) = OVERLAY_ID \<longrightarrow> parentOf d n = None) \<or>
         (\<exists>x. getElementById d OVERLAY_ID = Some x \<and> ov = Some x \<and> x < nextNode d \<and>
              elemId (elements d x) = OVERLAY_ID \<and> parentOf d x = Some (body d))"
proof (cases "\<exists>x<nextNode d. elemId (elements d x) = OVERLAY_ID \<and> parentOf d x = Some (body d)")
  case True
  then obtain x where x: "x < nextNode d" "elemId (elements d x) = OVERLAY_ID"
    "parentOf d x = Some (body d)" by blast
  from o x have "ov = Some x" unfolding overlayInv_def by auto
  with getElementById_overlay_Some[OF t o x] x show ?thesis by blast
next
  case False
  have none: "\<forall>n<nextNode d. elemId (elements d n) = OVERLAY_ID \<longrightarrow> parentOf d n = None"
    using False o unfolding overlayInv_def by blast
  have "getElementById d OVERLAY_ID = None"
  proof (rule ccontr)
    assume "getElementById d OVERLAY_ID \<noteq> None"
    then obtain y where "y \<in> set (treeOrder d (documentElement d))"
      "elemId (elements d y) = OVERLAY_ID"
      by (auto simp: getElementById_def find_None_iff)
    from overlay_in_document[OF t o this] treeOrder_bound[OF t _ this(1)] treeInv_root(1)[OF t]
      this(2) False
    show False by blast
  qed
  with none show ?thesis by blast
qed

lemma overlaysInDocument_set:
  assumes t: "treeInv d" and o: "overlayInv d ov"
  shows "set (overlaysInDocument d) =
           {x. x < nextNode d \<and> elemId (elements d x) = OVERLAY_ID \<and>
               parentOf d x = Some (body d)}"
proof (intro set_eqI iffI)
  fix x assume "x \<in> set (overlaysInDocument d)"
  then have x: "x \<in> set (treeOrder d (documentElement d))" "elemId (elements d x) = OVERLAY_ID"
    by (auto simp: overlaysInDocument_def)
  from overlay_in_document[OF t o x] treeOrder_bound[OF t treeInv_root(1)[OF t] x(1)] x(2)
  show "x \<in> {x. x < nextNode d \<and> elemId (elements d x) = OVERLAY_ID \<and>
               parentOf d x = Some (body d)}" by simp
next
  fix x assume "x \<in> {x. x < nextNode d \<and> elemId (elements d x) = OVERLAY_ID \<and>
               parentOf d x = Some (body d)}"
  then show "x \<in> set (overlaysInDocument d)"
    using child_of_body_in_document[OF t, of x] by (simp add: overlaysInDocument_def)
qed

lemma overlaysInDocument_subset:
  assumes t: "treeInv d" and o: "overlayInv d ov"
  shows "set (overlaysInDocument d) \<subseteq> set_option ov"
  using o unfolding overlaysInDocument_set[OF t o] overlayInv_def by auto

section \<open>Creating the overlay\<close>

lemma appendChild_ok:
  assumes "treeInv d" "p < nextNode d" "(n, p) \<notin> (edges d)\<^sup>*"
  shows "appendChild d p n = Inr (insertNode d p n None)"
  using contains_sound[OF assms(1,2), of n] assms(3)
  by (auto simp: appendChild_def insertBefore_def)

lemma leaf_not_ancestor:
  assumes t: "treeInv d" and n: "n < nextNode d" and c: "childrenOf d n = []" and np: "n \<noteq> p"
  shows "(n, p) \<notin> (edges d)\<^sup>*"
proof
  assume "(n, p) \<in> (edges d)\<^sup>*"
  with np obtain y where "(n, y) \<in> edges d" by (meson converse_rtranclE)
  then have "y < nextNode d" "parentOf d y = Some n" by (auto simp: edges_def)
  with treeInv_parent[OF t] c show False by fastforce
qed

lemma ancestor_step:
  assumes "(a, n) \<in> (edges d)\<^sup>*"
  shows "parentOf d n = Some p \<Longrightarrow> a = n \<or> (a, p) \<in> (edges d)\<^sup>*"
    and "parentOf d n = None \<Longrightarrow> a = n"
  using edges_rtrancl_cases[OF assms] by auto

lemma ancestors_of_body:
  assumes t: "treeInv d" and a: "(a, body d) \<in> (edges d)\<^sup>*"
  shows "a = body d \<or> a = documentElement d"
  using ancestor_step(1)[OF a treeInv_root(4)[OF t]] ancestor_step(2)[OF _ treeInv_root(3)[OF t]]
  by blast

lemma no_edge_into_fresh:
  assumes "(a, n) \<in> (edges d)\<^sup>*" "nextNode d \<le> n"
  shows "a = n"
  using edges_rtrancl_cases[OF assms(1)] assms(2) by auto

lemma overlayElements_simps [simp]:
  "nextNode (overlayElements d) = nextNode d + 4"
  "documentElement (overlayElements d) = documentElement d"
  "body (overlayElements d) = body d"
  "innerWidth (overlayElements d) = innerWidth d"
  "innerHeight (overlayElements d) = innerHeight d"
  by (simp_all add: overlayElements_def Let_def split_beta)

lemma elements_overlayElements:
  "elements (overlayElements d) m =
     (if m = nextNode d then
        (blankElement ''DIV'')\<lparr>elemId := OVERLAY_ID, classList := [''pane-fullscreen-overlay'']\<rparr>
      else if m = Suc (nextNode d) then
        (blankElement ''DIV'')\<lparr>elemId := CONTAINER_ID,
                                classList := [''pane-fullscreen-video-container'']\<rparr>
      else if m = Suc (Suc (nextNode d)) then
        (blankElement ''BUTTON'')\<lparr>classList := [''pane-fullscreen-close-btn'']\<rparr>
      else if m = Suc (Suc (Suc (nextNode d))) then
        (blankElement ''DIV'')\<lparr>classList := [''pane-fullscreen-hint'']\<rparr>
      else elements d m)"
  by (simp add: overlayElements_def Let_def split_beta)

lemma parentOf_overlayElements [simp]:
  "parentOf (overlayElements d) m =
     (if nextNode d \<le> m \<and> m < nextNode d + 4 then None else parentOf d m)"
  unfolding parentOf_def elements_overlayElements
  by (auto simp: blankElement_def simp del: fold_parentOf)

lemma childrenOf_overlayElements [simp]:
  "childrenOf (overlayElements d) m =
     (if nextNode d \<le> m \<and> m < nextNode d + 4 then [] else childrenOf d m)"
  unfolding childrenOf_def elements_overlayElements
  by (auto simp: blankElement_def simp del: fold_childrenOf)

lemma treeInv_overlayElements:
  assumes "treeInv d" shows "treeInv (overlayElements d)"
proof -
  have step: "treeInv (upd (snd (createElement d' tag)) (fst (createElement d' tag)) f)"
    if "treeInv d'"
      "\<And>e. parentNode (f e) = parentNode e \<and> childNodes (f e) = childNodes e \<and>
           contentDocument (f e) = contentDocument e" for d' tag f
    using that(2) by (intro treeInv_upd_attr treeInv_createElement[OF that(1)])
      (simp_all del: fold_parentOf fold_childrenOf add: parentOf_def childrenOf_def)
  show ?thesis
    unfolding overlayElements_def Let_def split_beta
    by (intro step assms) simp_all
qed


lemma overlayAttached_simps [simp]:
  "nextNode (overlayAttached d) = nextNode d + 4"
  "documentElement (overlayAttached d) = documentElement d"
  "body (overlayAttached d) = body d"
  "innerWidth (overlayAttached d) = innerWidth d"
  "innerHeight (overlayAttached d) = innerHeight d"
  by (simp_all add: overlayAttached_def Let_def)

lemma parentOf_overlayAttached [simp]:
  "parentOf (overlayAttached d) m =
     (if m = nextNode d then Some (body d)
      else if nextNode d < m \<and> m < nextNode d + 4 then Some (nextNode d)
      else parentOf d m)"
  by (auto simp: overlayAttached_def Let_def)

lemma childrenOf_overlayAttached:
  assumes "body d < nextNode d"
  shows "childrenOf (overlayAttached d) m =
     (if m = body d then childrenOf d (body d) @ [nextNode d]
      else if m = nextNode d then [Suc (nextNode d), Suc (Suc (nextNode d)), Suc (Suc (Suc (nextNode d)))]
      else if nextNode d < m \<and> m < nextNode d + 4 then []
      else childrenOf d m)"
  using assms by (auto simp: overlayAttached_def Let_def childrenOf_insertNode)

lemma removeNode_attrs [simp]:
  "tagName (elements (removeNode d n) m) = tagName (elements d m)"
  "elemId (elements (removeNode d n) m) = elemId (elements d m)"
  "styleAttr (elements (removeNode d n) m) = styleAttr (elements d m)"
  "classList (elements (removeNode d n) m) = classList (elements d m)"
  "clickListeners (elements (removeNode d n) m) = clickListeners (elements d m)"
  "contentDocument (elements (removeNode d n) m) = contentDocument (elements d m)"
  by (simp_all add: elements_removeNode)

lemma insertNode_attrs [simp]:
  "tagName (elements (insertNode d p n r) m) = tagName (elements d m)"
  "elemId (elements (insertNode d p n r) m) = elemId (elements d m)"
  "styleAttr (elements (insertNode d p n r) m) = styleAttr (elements d m)"
  "classList (elements (insertNode d p n r) m) = classList (elements d m)"
  "clickListeners (elements (insertNode d p n r) m) = clickListeners (elements d m)"
  "contentDocument (elements (insertNode d p n r) m) = contentDocument (elements d m)"
  by (simp_all add: elements_insertNode)

lemma overlayAttached_attrs:
  "tagName (elements (overlayAttached d) m) = tagName (elements (overlayElements d) m)"
  "elemId (elements (overlayAttached d) m) = elemId (elements (overlayElements d) m)"
  "styleAttr (elements (overlayAttached d) m) = styleAttr (elements (overlayElements d) m)"
  "classList (elements (overlayAttached d) m) = classList (elements (overlayElements d) m)"
  "clickListeners (elements (overlayAttached d) m)
     = clickListeners (elements (overlayElements d) m)"
  "contentDocument (elements (overlayAttached d) m)
     = contentDocument (elements (overlayElements d) m)"
  by (simp_all add: overlayAttached_def Let_def)

lemma overlayAttached_old [simp]:
  assumes "m < nextNode d"
  shows "tagName (elements (overlayAttached d) m) = tagName (elements d m)"
    "elemId (elements (overlayAttached d) m) = elemId (elements d m)"
    "styleAttr (elements (overlayAttached d) m) = styleAttr (elements d m)"
    "classList (elements (overlayAttached d) m) = classList (elements d m)"
    "clickListeners (elements (overlayAttached d) m) = clickListeners (elements d m)"
    "contentDocument (elements (overlayAttached d) m) = contentDocument (elements d m)"
  using assms by (simp_all add: overlayAttached_attrs elements_overlayElements)

lemma overlayAttached_new [simp]:
  "tagName (elements (overlayAttached d) (nextNode d)) = ''DIV''"
  "elemId (elements (overlayAttached d) (nextNode d)) = OVERLAY_ID"
  "classList (elements (overlayAttached d) (nextNode d)) = [''pane-fullscreen-overlay'']"
  "clickListeners (elements (overlayAttached d) (nextNode d)) = []"
  "elemId (elements (overlayAttached d) (Suc (nextNode d))) = CONTAINER_ID"
  "elemId (elements (overlayAttached d) (Suc (Suc (nextNode d)))) = []"
  "elemId (elements (overlayAttached d) (Suc (Suc (Suc (nextNode d))))) = []"
  by (simp_all add: overlayAttached_attrs elements_overlayElements blankElement_def)

lemma overlay_appends:
  assumes t: "treeInv d"
  defines "N \<equiv> nextNode d"
  defines "d1 \<equiv> insertNode (overlayElements d) N (Suc N) None"
  defines "d2 \<equiv> insertNode d1 N (Suc (Suc N)) None"
  defines "d3 \<equiv> insertNode d2 N (Suc (Suc (Suc N))) None"
  shows "appendChild (overlayElements d) N (Suc N) = Inr d1"
    and "appendChild d1 N (Suc (Suc N)) = Inr d2"
    and "appendChild d2 N (Suc (Suc (Suc N))) = Inr d3"
    and "appendChild d3 (body d) N = Inr (overlayAttached d)"
    and "treeInv (overlayAttached d)"
proof -
  define d0 where "d0 = overlayElements d"
  note r = treeInv_root[OF t]
  have t0: "treeInv d0" unfolding d0_def by (rule treeInv_overlayElements[OF t])
  have n1: "(Suc N, N) \<notin> (edges d0)\<^sup>*"
    by (rule leaf_not_ancestor[OF t0]) (simp_all add: d0_def N_def)
  have t1: "treeInv d1" unfolding d1_def d0_def[symmetric]
    using r by (intro treeInv_insertNode[OF t0] n1) (simp_all add: d0_def N_def)
  have n2: "(Suc (Suc N), N) \<notin> (edges d1)\<^sup>*"
    by (rule leaf_not_ancestor[OF t1]) (simp_all add: d1_def N_def childrenOf_insertNode)
  have t2: "treeInv d2" unfolding d2_def
    using r by (intro treeInv_insertNode[OF t1] n2) (simp_all add: d1_def N_def)
  have n3: "(Suc (Suc (Suc N)), N) \<notin> (edges d2)\<^sup>*"
    by (rule leaf_not_ancestor[OF t2])
       (simp_all add: d2_def d1_def N_def childrenOf_insertNode)
  have t3: "treeInv d3" unfolding d3_def
    using r by (intro treeInv_insertNode[OF t2] n3) (simp_all add: d2_def d1_def N_def)
  have b3: "body d3 = body d" "documentElement d3 = documentElement d" "nextNode d3 = N + 4"
    by (simp_all add: d3_def d2_def d1_def N_def)
  have n4: "(N, body d3) \<notin> (edges d3)\<^sup>*"
    using ancestors_of_body[OF t3, of N] r by (auto simp: b3 N_def)
  have fin: "insertNode d3 (body d3) N None = overlayAttached d"
    by (simp add: overlayAttached_def Let_def d3_def d2_def d1_def N_def)
  show "appendChild (overlayElements d) N (Suc N) = Inr d1"
    unfolding d1_def d0_def[symmetric]
    by (rule appendChild_ok[OF t0 _ n1]) (simp add: d0_def N_def)
  show "appendChild d1 N (Suc (Suc N)) = Inr d2"
    unfolding d2_def by (rule appendChild_ok[OF t1 _ n2]) (simp add: d1_def N_def)
  show "appendChild d2 N (Suc (Suc (Suc N))) = Inr d3"
    unfolding d3_def by (rule appendChild_ok[OF t2 _ n3]) (simp add: d2_def d1_def N_def)
  have "appendChild d3 (body d3) N = Inr (overlayAttached d)"
    unfolding fin[symmetric] using r by (intro appendChild_ok[OF t3 _ n4]) (simp add: b3 N_def)
  then show "appendChild d3 (body d) N = Inr (overlayAttached d)" by (simp add: b3)
  show "treeInv (overlayAttached d)"
    unfolding fin[symmetric] using r by (intro treeInv_insertNode[OF t3] n4) (simp_all add: b3 N_def)
qed

lemmas treeInv_overlayAttached = overlay_appends(5)

lemma withoutOverlay_simps [simp]:
  "nextNode (withoutOverlay d) = nextNode d"
  "documentElement (withoutOverlay d) = documentElement d"
  "body (withoutOverlay d) = body d"
  "innerWidth (withoutOverlay d) = innerWidth d"
  "innerHeight (withoutOverlay d) = innerHeight d"
  by (simp_all add: withoutOverlay_def split: option.splits)

lemma removeOverlay_eq:
  "removeOverlay s = s\<lparr>doc := withoutOverlay (doc s), overlay := None, elementContainer := None\<rparr>"
  by (simp add: removeOverlay_def withoutOverlay_def Let_def)

lemma createOverlay_unfold:
  "createOverlay s =
     (let d0 = overlayElements (withoutOverlay (doc s));
          N = nextNode (doc s);
          s1 = s\<lparr>doc := withoutOverlay (doc s), overlay := Some N,
                  elementContainer := Some (Suc N)\<rparr>
      in (case appendChild d0 N (Suc N) of
            Inl x \<Rightarrow> (Threw x, s1\<lparr>doc := d0\<rparr>)
          | Inr d \<Rightarrow>
         (case appendChild d N (Suc (Suc N)) of
            Inl x \<Rightarrow> (Threw x, s1\<lparr>doc := d\<rparr>)
          | Inr d \<Rightarrow>
         (case appendChild d N (Suc (Suc (Suc N))) of
            Inl x \<Rightarrow> (Threw x, s1\<lparr>doc := d\<rparr>)
          | Inr d \<Rightarrow>
         (case appendChild d (body d) N of
            Inl x \<Rightarrow> (Threw x, s1\<lparr>doc := d\<rparr>)
          | Inr d \<Rightarrow> (Returned (), s1\<lparr>doc := d\<rparr>))))))"
  by (simp add: createOverlay_def removeOverlay_eq overlayElements_def Let_def split_beta
      cong: sum.case_cong)

lemma createOverlay_ok:
  assumes "treeInv (withoutOverlay (doc s))"
  shows "createOverlay s =
           (Returned (),
            s\<lparr>doc := overlayAttached (withoutOverlay (doc s)),
              overlay := Some (nextNode (doc s)),
              elementContainer := Some (Suc (nextNode (doc s)))\<rparr>)"
proof -
  note a = overlay_appends(1-4)[OF assms, unfolded withoutOverlay_simps]
  show ?thesis
    unfolding createOverlay_unfold Let_def by (simp add: a)
qed

section \<open>The session invariant, step by step\<close>

subsection \<open>Removing the existing overlay\<close>

lemma overlayInvD:
  assumes "overlayInv d ov" "n < nextNode d" "elemId (elements d n) = OVERLAY_ID"
  shows "n \<noteq> documentElement d" "tagName (elements d n) = ''DIV''"
    "set (classList (elements d n)) \<subseteq> {''pane-fullscreen-overlay'', ''active''}"
    "clickListeners (elements d n) = []"
    "parentOf d n = None \<or> (parentOf d n = Some (body d) \<and> ov = Some n)"
  using assms unfolding overlayInv_def by blast+

lemma overlayInvI:
  assumes "\<And>n. n < nextNode d \<Longrightarrow> elemId (elements d n) = OVERLAY_ID \<Longrightarrow>
      n \<noteq> documentElement d \<and> tagName (elements d n) = ''DIV'' \<and>
      set (classList (elements d n)) \<subseteq> {''pane-fullscreen-overlay'', ''active''} \<and>
      clickListeners (elements d n) = [] \<and>
      (parentOf d n = None \<or> (parentOf d n = Some (body d) \<and> ov = Some n))"
  shows "overlayInv d ov"
  unfolding overlayInv_def using assms by blast

lemma withoutOverlay_attrs [simp]:
  "tagName (elements (withoutOverlay d) m) = tagName (elements d m)"
  "elemId (elements (withoutOverlay d) m) = elemId (elements d m)"
  "styleAttr (elements (withoutOverlay d) m) = styleAttr (elements d m)"
  "classList (elements (withoutOverlay d) m) = classList (elements d m)"
  "clickListeners (elements (withoutOverlay d) m) = clickListeners (elements d m)"
  "contentDocument (elements (withoutOverlay d) m) = contentDocument (elements d m)"
  by (simp_all add: withoutOverlay_def split: option.splits)

lemma edges_withoutOverlay: "edges (withoutOverlay d) \<subseteq> edges d"
  using edges_removeNode by (auto simp: withoutOverlay_def split: option.splits)

lemma withoutOverlay_cases:
  assumes t: "treeInv d" and o: "overlayInv d ov"
  shows "(withoutOverlay d = d \<and>
           (\<forall>n<nextNode d. elemId (elements d n) = OVERLAY_ID \<longrightarrow> parentOf d n = None)) \<or>
         (\<exists>x. withoutOverlay d = removeNode d x \<and> ov = Some x \<and> x < nextNode d \<and>
              elemId (elements d x) = OVERLAY_ID \<and> parentOf d x = Some (body d))"
  using getElementById_overlay_cases[OF t o] by (auto simp: withoutOverlay_def)

lemma treeInv_withoutOverlay:
  assumes t: "treeInv d" and o: "overlayInv d ov"
  shows "treeInv (withoutOverlay d)"
proof -
  from withoutOverlay_cases[OF t o] show ?thesis
  proof (elim disjE exE conjE)
    fix x assume x: "withoutOverlay d = removeNode d x" "parentOf d x = Some (body d)"
    have "x \<noteq> body d" using x(2) treeInv_root[OF t] by auto
    with x(1) show ?thesis by (simp add: treeInv_removeNode[OF t])
  qed (simp add: t)
qed

lemma parentOf_withoutOverlay:
  assumes t: "treeInv d" and o: "overlayInv d ov"
  shows "parentOf (withoutOverlay d) m =
     (if m < nextNode d \<and> elemId (elements d m) = OVERLAY_ID then None else parentOf d m)"
proof -
  from withoutOverlay_cases[OF t o] show ?thesis
  proof (elim disjE exE conjE)
    fix x assume x: "withoutOverlay d = removeNode d x" "ov = Some x" "x < nextNode d"
      "elemId (elements d x) = OVERLAY_ID" "parentOf d x = Some (body d)"
    show ?thesis
      using x overlayInvD(5)[OF o, of m] by (auto simp: x(1))
  qed auto
qed

lemma childrenOf_withoutOverlay:
  assumes t: "treeInv d" and o: "overlayInv d ov" and m: "m \<noteq> body d"
  shows "childrenOf (withoutOverlay d) m = childrenOf d m"
  using withoutOverlay_cases[OF t o] m by auto

lemma overlayInv_withoutOverlay:
  assumes t: "treeInv d" and o: "overlayInv d ov"
  shows "overlayInv (withoutOverlay d) ov'"
  using overlayInvD[OF o]
  by (intro overlayInvI) (simp add: parentOf_withoutOverlay[OF t o])

lemma OVERLAY_ID_neq [simp]: "CONTAINER_ID \<noteq> OVERLAY_ID" "[] \<noteq> OVERLAY_ID"
  by (simp_all add: CONTAINER_ID_def OVERLAY_ID_def)

lemma overlayInv_overlayAttached:
  assumes t: "treeInv d" and o: "overlayInv d ov"
    and none: "\<And>n. n < nextNode d \<Longrightarrow> elemId (elements d n) = OVERLAY_ID \<Longrightarrow> parentOf d n = None"
  shows "overlayInv (overlayAttached d) (Some (nextNode d))"
proof (rule overlayInvI)
  fix n assume n: "n < nextNode (overlayAttached d)"
    and i: "elemId (elements (overlayAttached d) n) = OVERLAY_ID"
  note r = treeInv_root[OF t]
  consider "n < nextNode d" | "n = nextNode d" | "n = Suc (nextNode d)"
    | "n = Suc (Suc (nextNode d))" | "n = Suc (Suc (Suc (nextNode d)))"
    using n by (auto simp: less_Suc_eq numeral_eq_Suc)
  then show "n \<noteq> documentElement (overlayAttached d) \<and>
      tagName (elements (overlayAttached d) n) = ''DIV'' \<and>
      set (classList (elements (overlayAttached d) n))
        \<subseteq> {''pane-fullscreen-overlay'', ''active''} \<and>
      clickListeners (elements (overlayAttached d) n) = [] \<and>
      (parentOf (overlayAttached d) n = None \<or>
       (parentOf (overlayAttached d) n = Some (body (overlayAttached d)) \<and>
        Some (nextNode d) = Some n))"
  proof cases
    case 1
    with i have i': "elemId (elements d n) = OVERLAY_ID" by simp
    from overlayInvD[OF o 1 i'] none[OF 1 i'] 1 show ?thesis by simp
  next
    case 2
    with r show ?thesis by auto
  next
    case 3
    with i show ?thesis by simp
  next
    case 4
    with i show ?thesis by simp
  next
    case 5
    with i show ?thesis by simp
  qed
qed

lemma overlay_ready:
  assumes t: "treeInv d" and o: "overlayInv d ov"
  shows "treeInv (overlayAttached (withoutOverlay d))"
    and "overlayInv (overlayAttached (withoutOverlay d)) (Some (nextNode d))"
proof -
  have t': "treeInv (withoutOverlay d)" by (rule treeInv_withoutOverlay[OF t o])
  show "treeInv (overlayAttached (withoutOverlay d))" by (rule treeInv_overlayAttached[OF t'])
  have "overlayInv (overlayAttached (withoutOverlay d)) (Some (nextNode (withoutOverlay d)))"
    by (rule overlayInv_overlayAttached[OF t' overlayInv_withoutOverlay[OF t o, of ov]])
       (simp add: parentOf_withoutOverlay[OF t o])
  then show "overlayInv (overlayAttached (withoutOverlay d)) (Some (nextNode d))" by simp
qed


subsection \<open>Changes of attributes\<close>

lemma attrOnlyD:
  assumes "attrOnly d n f"
  shows "parentNode (f (elements d n)) = parentOf d n"
    "childNodes (f (elements d n)) = childrenOf d n"
    "contentDocument (f (elements d n)) = contentDocument (elements d n)"
    "elemId (f (elements d n)) = elemId (elements d n)"
    "tagName (f (elements d n)) = tagName (elements d n)"
    "elemId (elements d n) = OVERLAY_ID \<Longrightarrow>
       set (classList (f (elements d n))) \<subseteq> {''pane-fullscreen-overlay'', ''active''} \<and>
       clickListeners (f (elements d n)) = []"
  using assms by (simp_all add: attrOnly_def Let_def)

lemma attrOnly_structure:
  assumes "attrOnly d n f"
  shows "parentOf (upd d n f) m = parentOf d m" "childrenOf (upd d n f) m = childrenOf d m"
    "elemId (elements (upd d n f) m) = elemId (elements d m)"
    "tagName (elements (upd d n f) m) = tagName (elements d m)"
    "contentDocument (elements (upd d n f) m) = contentDocument (elements d m)"
    "edges (upd d n f) = edges d"
proof -
  note D = attrOnlyD[OF assms]
  show p: "parentOf (upd d n f) m = parentOf d m" for m using D by simp
  show "childrenOf (upd d n f) m = childrenOf d m" using D by simp
  show "elemId (elements (upd d n f) m) = elemId (elements d m)" using D by simp
  show "tagName (elements (upd d n f) m) = tagName (elements d m)" using D by simp
  show "contentDocument (elements (upd d n f) m) = contentDocument (elements d m)"
    using D by simp
  show "edges (upd d n f) = edges d" unfolding edges_def p by simp
qed

lemma treeInv_attrOnly: "treeInv d \<Longrightarrow> attrOnly d n f \<Longrightarrow> treeInv (upd d n f)"
  by (rule treeInv_upd_attr) (simp_all add: attrOnlyD)

lemma overlayInv_attrOnly:
  assumes o: "overlayInv d ov" and a: "attrOnly d n f"
  shows "overlayInv (upd d n f) ov"
proof (rule overlayInvI)
  fix m assume m: "m < nextNode (upd d n f)"
    and i: "elemId (elements (upd d n f) m) = OVERLAY_ID"
  from i have i': "elemId (elements d m) = OVERLAY_ID"
    unfolding attrOnly_structure[OF a] .
  from m have m': "m < nextNode d" by simp
  note D = overlayInvD[OF o m' i']
  have c: "set (classList (elements (upd d n f) m)) \<subseteq> {''pane-fullscreen-overlay'', ''active''} \<and>
      clickListeners (elements (upd d n f) m) = []"
  proof (cases "m = n")
    case True
    with attrOnlyD(6)[OF a] i' show ?thesis by simp
  next
    case False
    with D show ?thesis by simp
  qed
  from D c show "m \<noteq> documentElement (upd d n f) \<and> tagName (elements (upd d n f) m) = ''DIV'' \<and>
      set (classList (elements (upd d n f) m)) \<subseteq> {''pane-fullscreen-overlay'', ''active''} \<and>
      clickListeners (elements (upd d n f) m) = [] \<and>
      (parentOf (upd d n f) m = None \<or>
       (parentOf (upd d n f) m = Some (body (upd d n f)) \<and> ov = Some m))"
    unfolding attrOnly_structure[OF a] by simp
qed

lemma sessionInv_attrOnly:
  assumes s: "sessionInv d e st ov ec" and a: "attrOnly d n f"
  shows "sessionInv (upd d n f) e st ov ec"
  using s unfolding sessionInv_def attrOnly_structure[OF a] by simp

lemma Inv_attrOnly:
  assumes "Inv s" "attrOnly (doc s) n f"
  shows "Inv (s\<lparr>doc := upd (doc s) n f\<rparr>)"
proof -
  have n: "nextNode (upd (doc s) n f) = nextNode (doc s)" by simp
  show ?thesis
    using assms treeInv_attrOnly overlayInv_attrOnly sessionInv_attrOnly
    unfolding Inv_def by (simp del: upd_simps add: n) blast
qed

lemma attrOnly_classListAdd:
  assumes "elemId (elements d n) = OVERLAY_ID \<Longrightarrow> c \<in> {''pane-fullscreen-overlay'', ''active''}"
    "overlayInv d ov" "n < nextNode d"
  shows "attrOnly d n (\<lambda>e. if c \<in> set (classList e) then e else e\<lparr>classList := classList e @ [c]\<rparr>)"
  using assms(1) overlayInvD(3,4)[OF assms(2,3)]
  by (auto simp: attrOnly_def Let_def)

lemma attrOnly_not_overlay:
  assumes "elemId (elements d n) \<noteq> OVERLAY_ID"
    "\<And>e. parentNode (f e) = parentNode e \<and> childNodes (f e) = childNodes e \<and>
      contentDocument (f e) = contentDocument e \<and> elemId (f e) = elemId e \<and>
      tagName (f e) = tagName e"
  shows "attrOnly d n f"
  using assms by (simp add: attrOnly_def Let_def del: fold_parentOf fold_childrenOf)

subsection \<open>Entering a session\<close>

lemma play_simps [simp]:
  "nextNode (play d n) = nextNode d"
  "documentElement (play d n) = documentElement d"
  "body (play d n) = body d"
  "parentOf (play d n) m = parentOf d m"
  "childrenOf (play d n) m = childrenOf d m"
  "tagName (elements (play d n) m) = tagName (elements d m)"
  "elemId (elements (play d n) m) = elemId (elements d m)"
  "styleAttr (elements (play d n) m) = styleAttr (elements d m)"
  "classList (elements (play d n) m) = classList (elements d m)"
  "clickListeners (elements (play d n) m) = clickListeners (elements d m)"
  "contentDocument (elements (play d n) m) = contentDocument (elements d m)"
  by (simp_all add: play_def)

lemma classListAdd_attrs [simp]:
  "tagName (elements (classListAdd d n c) m) = tagName (elements d m)"
  "elemId (elements (classListAdd d n c) m) = elemId (elements d m)"
  "styleAttr (elements (classListAdd d n c) m) = styleAttr (elements d m)"
  "clickListeners (elements (classListAdd d n c) m) = clickListeners (elements d m)"
  "contentDocument (elements (classListAdd d n c) m) = contentDocument (elements d m)"
  "m \<noteq> n \<Longrightarrow> classList (elements (classListAdd d n c) m) = classList (elements d m)"
  by (simp_all add: classListAdd_def)

lemma treeInv_play: "treeInv d \<Longrightarrow> treeInv (play d n)"
  by (rule treeInv_cong) simp_all

lemma treeInv_classListAdd: "treeInv d \<Longrightarrow> treeInv (classListAdd d n c)"
  by (rule treeInv_cong) simp_all

lemma edges_cong:
  "nextNode d' = nextNode d \<Longrightarrow> (\<And>m. parentOf d' m = parentOf d m) \<Longrightarrow> edges d' = edges d"
  by (simp add: edges_def)

lemma sessionDocument_simps [simp]:
  "nextNode (sessionDocument d e ty) = nextNode d + 4"
  "documentElement (sessionDocument d e ty) = documentElement d"
  "body (sessionDocument d e ty) = body d"
  by (simp_all add: sessionDocument_def Let_def)

lemma parentOf_sessionDocument:
  assumes t: "treeInv d" and o: "overlayInv d ov"
  shows "parentOf (sessionDocument d e ty) m =
     (if m = e then Some (Suc (nextNode d))
      else if m = nextNode d then Some (body d)
      else if nextNode d < m \<and> m < nextNode d + 4 then Some (nextNode d)
      else if m < nextNode d \<and> elemId (elements d m) = OVERLAY_ID then None
      else parentOf d m)"
  by (simp add: sessionDocument_def Let_def parentOf_withoutOverlay[OF t o])

lemma sessionDocument_attrs:
  assumes "m < nextNode d"
  shows "tagName (elements (sessionDocument d e ty) m) = tagName (elements d m)"
    "elemId (elements (sessionDocument d e ty) m) = elemId (elements d m)"
    "styleAttr (elements (sessionDocument d e ty) m) = styleAttr (elements d m)"
    "clickListeners (elements (sessionDocument d e ty) m) = clickListeners (elements d m)"
    "contentDocument (elements (sessionDocument d e ty) m) = contentDocument (elements d m)"
    "m \<noteq> e \<Longrightarrow> classList (elements (sessionDocument d e ty) m) = classList (elements d m)"
  using assms by (simp_all add: sessionDocument_def Let_def)

lemma sessionDocument_new:
  "tagName (elements (sessionDocument d e ty) (nextNode d)) = ''DIV''"
  "elemId (elements (sessionDocument d e ty) (nextNode d)) = OVERLAY_ID"
  "e \<noteq> nextNode d \<Longrightarrow>
     classList (elements (sessionDocument d e ty) (nextNode d)) = [''pane-fullscreen-overlay'']"
  "clickListeners (elements (sessionDocument d e ty) (nextNode d)) = []"
  "elemId (elements (sessionDocument d e ty) (Suc (nextNode d))) = CONTAINER_ID"
  "elemId (elements (sessionDocument d e ty) (Suc (Suc (nextNode d)))) = []"
  "elemId (elements (sessionDocument d e ty) (Suc (Suc (Suc (nextNode d))))) = []"
  using overlayAttached_new[of "withoutOverlay d"]
  by (simp_all add: sessionDocument_def Let_def)

lemma holder_ancestors:
  fixes c :: string
  assumes t: "treeInv d" and o: "overlayInv d ov"
    and e: "e < nextNode d" "e \<noteq> body d" "e \<noteq> documentElement d"
  defines "d1 \<equiv> classListAdd (overlayAttached (withoutOverlay d)) e c"
  shows "treeInv d1" and "(e, Suc (nextNode d)) \<notin> (edges d1)\<^sup>*"
proof -
  note r = treeInv_root[OF t]
  show t1: "treeInv d1"
    unfolding d1_def by (intro treeInv_classListAdd overlay_ready(1)[OF t o])
  have p: "parentOf d1 (Suc (nextNode d)) = Some (nextNode d)"
    "parentOf d1 (nextNode d) = Some (body d)"
    "parentOf d1 (body d) = Some (documentElement d)"
    "parentOf d1 (documentElement d) = None"
    using r overlayInvD(1)[OF o r(1)] overlayInvD(5)[OF o r(2)]
    by (auto simp: d1_def parentOf_withoutOverlay[OF t o])
  show "(e, Suc (nextNode d)) \<notin> (edges d1)\<^sup>*"
  proof
    assume "(e, Suc (nextNode d)) \<in> (edges d1)\<^sup>*"
    from ancestor_step(1)[OF this p(1)] e have "(e, nextNode d) \<in> (edges d1)\<^sup>*" by auto
    from ancestor_step(1)[OF this p(2)] e have "(e, body d) \<in> (edges d1)\<^sup>*" by auto
    from ancestor_step(1)[OF this p(3)] e have "(e, documentElement d) \<in> (edges d1)\<^sup>*" by auto
    from ancestor_step(2)[OF this p(4)] e show False by simp
  qed
qed

lemma treeInv_sessionDocument:
  assumes t: "treeInv d" and o: "overlayInv d ov"
    and e: "e < nextNode d" "e \<noteq> body d" "e \<noteq> documentElement d"
  shows "treeInv (sessionDocument d e ty)"
proof -
  note h = holder_ancestors[OF t o e]
  have "treeInv (insertNode (classListAdd (overlayAttached (withoutOverlay d)) e (markerClass ty))
                  (Suc (nextNode d)) e None)"
    using e by (intro treeInv_insertNode h) simp_all
  then show ?thesis by (auto simp: sessionDocument_def Let_def intro: treeInv_play)
qed

lemma enter_inactive:
  assumes t: "treeInv (doc s)" and o: "overlayInv (doc s) (overlay s)" and na: "\<not> isActive s"
    and e: "e < nextNode (doc s)" "e \<noteq> body (doc s)" "e \<noteq> documentElement (doc s)"
  shows "enterPaneFullscreen (Some e) ty s =
           (Returned True,
            s\<lparr>originalElementState := Some (saveElementState (doc s) e),
              currentElement := Some e,
              doc := sessionDocument (doc s) e ty,
              overlay := Some (nextNode (doc s)),
              elementContainer := Some (Suc (nextNode (doc s))),
              isActive := True\<rparr>)"
proof -
  let ?st = "saveElementState (doc s) e"
  let ?s2 = "s\<lparr>originalElementState := Some ?st, currentElement := Some e\<rparr>"
  have c: "createOverlay ?s2 =
             (Returned (),
              ?s2\<lparr>doc := overlayAttached (withoutOverlay (doc s)),
                   overlay := Some (nextNode (doc s)),
                   elementContainer := Some (Suc (nextNode (doc s)))\<rparr>)"
    using createOverlay_ok[of ?s2] treeInv_withoutOverlay[OF t o] by simp
  note h = holder_ancestors[OF t o e, of "markerClass ty"]
  have a: "appendChild (classListAdd (overlayAttached (withoutOverlay (doc s))) e (markerClass ty))
             (Suc (nextNode (doc s))) e
           = Inr (insertNode (classListAdd (overlayAttached (withoutOverlay (doc s))) e
                                (markerClass ty)) (Suc (nextNode (doc s))) e None)"
    by (rule appendChild_ok[OF h(1) _ h(2)]) simp
  show ?thesis
    using na by (simp add: enterPaneFullscreen_def Let_def c a sessionDocument_def)
qed


lemma nextAfter_neq: "distinct xs \<Longrightarrow> nextAfter n xs \<noteq> Some n"
proof (induction xs)
  case Nil
  then show ?case by simp
next
  case (Cons x xs)
  then show ?case by (cases xs) auto
qed

lemma session_descendants:
  assumes t: "treeInv d" and o: "overlayInv d ov"
    and e: "e < nextNode d" "e \<noteq> body d" "e \<noteq> documentElement d"
    and x: "(e, x) \<in> (edges (sessionDocument d e ty))\<^sup>*"
  shows "(e, x) \<in> (edges d)\<^sup>*"
  using x
proof (induction rule: rtrancl_induct)
  case base
  then show ?case by simp
next
  case (step y z)
  from step.hyps(2) have z: "z < nextNode d + 4" "parentOf (sessionDocument d e ty) z = Some y"
    by (auto simp: edges_def)
  have fresh: "nextNode d \<le> y \<Longrightarrow> False"
    using no_edge_into_fresh[OF step.IH] e by simp
  have nb: "y \<noteq> body d"
    using ancestors_of_body[OF t, of e] step.IH e by auto
  from z(2) fresh nb have "z < nextNode d \<and> parentOf d z = Some y"
    unfolding parentOf_sessionDocument[OF t o] using z(1)
    by (auto split: if_splits)
  then have "(y, z) \<in> edges d" by (simp add: edges_def)
  with step.IH show ?case by simp
qed

lemma overlayInv_sessionDocument:
  assumes t: "treeInv d" and o: "overlayInv d ov"
    and e: "e < nextNode d" "elemId (elements d e) \<noteq> OVERLAY_ID"
  shows "overlayInv (sessionDocument d e ty) (Some (nextNode d))"
proof (rule overlayInvI)
  fix n assume n: "n < nextNode (sessionDocument d e ty)"
    and i: "elemId (elements (sessionDocument d e ty) n) = OVERLAY_ID"
  note r = treeInv_root[OF t]
  let ?D = "sessionDocument d e ty"
  consider "n < nextNode d" | "n = nextNode d" | "n = Suc (nextNode d)"
    | "n = Suc (Suc (nextNode d))" | "n = Suc (Suc (Suc (nextNode d)))"
    using n by (auto simp: less_Suc_eq numeral_eq_Suc)
  then show "n \<noteq> documentElement ?D \<and> tagName (elements ?D n) = ''DIV'' \<and>
      set (classList (elements ?D n)) \<subseteq> {''pane-fullscreen-overlay'', ''active''} \<and>
      clickListeners (elements ?D n) = [] \<and>
      (parentOf ?D n = None \<or> (parentOf ?D n = Some (body ?D) \<and> Some (nextNode d) = Some n))"
  proof cases
    case 1
    with i have i': "elemId (elements d n) = OVERLAY_ID" by (simp add: sessionDocument_attrs)
    with e have ne: "n \<noteq> e" by auto
    from overlayInvD[OF o 1 i'] 1 ne i' show ?thesis
      by (simp add: sessionDocument_attrs parentOf_sessionDocument[OF t o])
  next
    case 2
    with r e show ?thesis
      by (auto simp: sessionDocument_new parentOf_sessionDocument[OF t o])
  next
    case 3
    with i show ?thesis by (simp add: sessionDocument_new)
  next
    case 4
    with i show ?thesis by (simp add: sessionDocument_new)
  next
    case 5
    with i show ?thesis by (simp add: sessionDocument_new)
  qed
qed

lemma sessionInv_sessionDocument:
  assumes t: "treeInv d" and o: "overlayInv d ov"
    and e: "e < nextNode d" "e \<noteq> body d" "e \<noteq> documentElement d"
    and ne: "elemId (elements d e) \<noteq> OVERLAY_ID"
  shows "sessionInv (sessionDocument d e ty) e (saveElementState d e)
           (nextNode d) (Suc (nextNode d))"
proof -
  let ?D = "sessionDocument d e ty"
  let ?st = "saveElementState d e"
  note P = parentOf_sessionDocument[OF t o]
  have snap: "p < nextNode ?D \<and> (e, p) \<notin> (edges ?D)\<^sup>* \<and>
        (\<forall>sb. os_nextSibling ?st = Some sb \<longrightarrow>
           sb \<noteq> e \<and> sb \<noteq> nextNode d \<and> sb < nextNode ?D \<and>
           (parentOf ?D sb = Some p \<or> elemId (elements ?D sb) = OVERLAY_ID))"
    if p: "os_parent ?st = Some p" for p
  proof -
    from p have pe: "parentOf d e = Some p" by (simp add: saveElementState_def Let_def)
    from treeInv_parent[OF t e(1) pe] have pn: "p < nextNode d" by simp
    have anc: "(e, p) \<notin> (edges ?D)\<^sup>*"
      using session_descendants[OF t o e] parent_not_below[OF t e(1) pe] by blast
    have sib: "sb \<noteq> e \<and> sb \<noteq> nextNode d \<and> sb < nextNode ?D \<and>
           (parentOf ?D sb = Some p \<or> elemId (elements ?D sb) = OVERLAY_ID)"
      if "os_nextSibling ?st = Some sb" for sb
    proof -
      from that pe have na: "nextAfter e (childrenOf d p) = Some sb"
        by (simp add: saveElementState_def Let_def nextSibling_def)
      from nextAfter_mem[OF na] treeInv_child[OF t pn] have s: "sb < nextNode d"
        "parentOf d sb = Some p" by auto
      from nextAfter_neq[OF treeInv_distinct[OF t pn], of e] na have "sb \<noteq> e" by auto
      with s show ?thesis by (simp add: P sessionDocument_attrs)
    qed
    from pn anc sib show ?thesis by simp
  qed
  have basic: "e < nextNode ?D \<and> nextNode d < nextNode ?D \<and> Suc (nextNode d) < nextNode ?D \<and>
     elemId (elements ?D (nextNode d)) = OVERLAY_ID \<and> elemId (elements ?D e) \<noteq> OVERLAY_ID \<and>
     parentOf ?D (nextNode d) = Some (body ?D) \<and>
     parentOf ?D (Suc (nextNode d)) = Some (nextNode d) \<and>
     parentOf ?D e = Some (Suc (nextNode d))"
    using e ne by (simp add: P sessionDocument_attrs sessionDocument_new)
  show ?thesis
    unfolding sessionInv_def using basic snap by blast
qed

lemma Inv_enter_inactive:
  assumes i: "Inv s" and na: "\<not> isActive s"
    and e: "e < nextNode (doc s)" "e \<noteq> body (doc s)" "e \<noteq> documentElement (doc s)"
    and ne: "elemId (elements (doc s) e) \<noteq> OVERLAY_ID"
  shows "Inv (snd (enterPaneFullscreen (Some e) ty s))"
proof -
  from i have t: "treeInv (doc s)" and o: "overlayInv (doc s) (overlay s)"
    by (simp_all add: Inv_def)
  show ?thesis
    unfolding enter_inactive[OF t o na e] Inv_def
    using treeInv_sessionDocument[OF t o e] overlayInv_sessionDocument[OF t o e(1) ne]
      sessionInv_sessionDocument[OF t o e ne]
    by simp
qed

subsection \<open>Leaving a session\<close>

lemma restoredAttrs_attrs [simp]:
  "tagName (elements (restoredAttrs d e st) m) = tagName (elements d m)"
  "elemId (elements (restoredAttrs d e st) m) = elemId (elements d m)"
  "clickListeners (elements (restoredAttrs d e st) m) = clickListeners (elements d m)"
  "contentDocument (elements (restoredAttrs d e st) m) = contentDocument (elements d m)"
  "styleAttr (elements (restoredAttrs d e st) m) =
     (if m = e then Some (os_style st) else styleAttr (elements d m))"
  "classList (elements (restoredAttrs d e st) m) =
     (if m = e then stripMarkers (os_className st) else classList (elements d m))"
  by (simp_all add: restoredAttrs_def)

lemma attrOnly_restoredAttrs:
  "elemId (elements d e) \<noteq> OVERLAY_ID \<Longrightarrow>
   attrOnly d e (\<lambda>x. x\<lparr>styleAttr := Some s, classList := cs\<rparr>)"
  by (rule attrOnly_not_overlay) simp_all

lemma sessionInv_nodes:
  assumes t: "treeInv d" and s: "sessionInv d e st ov ec"
  shows "e \<noteq> body d" "e \<noteq> documentElement d" "e \<noteq> ov"
    "documentElement d \<noteq> ec" "documentElement d \<noteq> ov" "ec \<noteq> e"
proof -
  note r = treeInv_root[OF t]
  from s have p: "parentOf d ov = Some (body d)" "parentOf d ec = Some ov"
    "parentOf d e = Some ec" "elemId (elements d ov) = OVERLAY_ID"
    "elemId (elements d e) \<noteq> OVERLAY_ID"
    by (simp_all add: sessionInv_def)
  show "e \<noteq> documentElement d" using p(3) r(3) by auto
  show "documentElement d \<noteq> ec" using p(2) r(3) by auto
  show "documentElement d \<noteq> ov" using p(1) r(3) by auto
  show "e \<noteq> ov" using p(4,5) by auto
  from s have "e < nextNode d" by (simp add: sessionInv_def)
  from parent_not_below[OF t this p(3)] show "ec \<noteq> e" by auto
  show "e \<noteq> body d"
  proof
    assume "e = body d"
    with p(3) r(4) have "ec = documentElement d" by simp
    with p(2) r(3) show False by simp
  qed
qed

lemma restore_in_session:
  assumes t: "treeInv d" and s: "sessionInv d e st ov ec"
  shows "restoreElementState d (Some e) (Some st) =
     (if siblingInPlace d st
      then (Returned (),
            case os_parent st of
              None \<Rightarrow> restoredAttrs d e st
            | Some p \<Rightarrow> insertNode (restoredAttrs d e st) p e (os_nextSibling st))
      else (Threw NotFoundError, restoredAttrs d e st))"
proof (cases "os_parent st")
  case None
  then show ?thesis by (simp add: restoreElementState_unfold siblingInPlace_def)
next
  case (Some p)
  with s have p: "p < nextNode d" "(e, p) \<notin> (edges d)\<^sup>*"
    and sb: "\<And>sb. os_nextSibling st = Some sb \<Longrightarrow> sb \<noteq> e"
    by (simp_all add: sessionInv_def)
  have "\<not> contains d e p" using contains_sound[OF t p(1)] p(2) by blast
  then have c: "\<not> contains (restoredAttrs d e st) e p"
    by (simp add: contains_cong[of "restoredAttrs d e st" d])
  show ?thesis
  proof (cases "os_nextSibling st")
    case None
    with Some c show ?thesis
      by (simp add: restoreElementState_unfold siblingInPlace_def insertBefore_def)
  next
    case (Some x)
    with sb have "x \<noteq> e" by simp
    with Some \<open>os_parent st = Some p\<close> c show ?thesis
      by (simp add: restoreElementState_unfold siblingInPlace_def insertBefore_def)
  qed
qed

lemma exit_effect:
  assumes t: "treeInv (doc s)" and a: "isActive s" and c: "currentElement s = Some e"
    and o: "originalElementState s = Some st" and s: "sessionInv (doc s) e st ov ec"
  shows "exitPaneFullscreen s =
     (if siblingInPlace (doc s) st
      then (Returned (),
            s\<lparr>doc := exitDocument (doc s) e st, overlay := None, elementContainer := None,
              isActive := False, currentElement := None, originalElementState := None\<rparr>)
      else (Threw NotFoundError, s\<lparr>doc := restoredAttrs (doc s) e st\<rparr>))"
  by (simp add: exitPaneFullscreen_def a c o restore_in_session[OF t s] removeOverlay_eq
      exitDocument_def reinserted_def Let_def)

lemma reinserted_simps [simp]:
  "nextNode (reinserted d e st) = nextNode d"
  "documentElement (reinserted d e st) = documentElement d"
  "body (reinserted d e st) = body d"
  "parentOf (reinserted d e st) m =
     (if m = e then (case os_parent st of None \<Rightarrow> parentOf d e | Some p \<Rightarrow> Some p)
      else parentOf d m)"
  "tagName (elements (reinserted d e st) m) = tagName (elements d m)"
  "elemId (elements (reinserted d e st) m) = elemId (elements d m)"
  "clickListeners (elements (reinserted d e st) m) = clickListeners (elements d m)"
  "contentDocument (elements (reinserted d e st) m) = contentDocument (elements d m)"
  "styleAttr (elements (reinserted d e st) m) =
     (if m = e then Some (os_style st) else styleAttr (elements d m))"
  "classList (elements (reinserted d e st) m) =
     (if m = e then stripMarkers (os_className st) else classList (elements d m))"
  by (simp_all add: reinserted_def Let_def split: option.splits)

lemma exitDocument_simps [simp]:
  "nextNode (exitDocument d e st) = nextNode d"
  "documentElement (exitDocument d e st) = documentElement d"
  "body (exitDocument d e st) = body d"
  "tagName (elements (exitDocument d e st) m) = tagName (elements d m)"
  "elemId (elements (exitDocument d e st) m) = elemId (elements d m)"
  "clickListeners (elements (exitDocument d e st) m) = clickListeners (elements d m)"
  "contentDocument (elements (exitDocument d e st) m) = contentDocument (elements d m)"
  "styleAttr (elements (exitDocument d e st) m) =
     (if m = e then Some (os_style st) else styleAttr (elements d m))"
  "classList (elements (exitDocument d e st) m) =
     (if m = e then stripMarkers (os_className st) else classList (elements d m))"
  by (simp_all add: exitDocument_def)

lemma reinserted_inv:
  assumes t: "treeInv d" and o: "overlayInv d ov'" and s: "sessionInv d e st ov ec"
  shows "treeInv (reinserted d e st)" and "overlayInv (reinserted d e st) ov'"
proof -
  note n = sessionInv_nodes[OF t s]
  from s have e: "e < nextNode d" "elemId (elements d e) \<noteq> OVERLAY_ID"
    by (simp_all add: sessionInv_def)
  have t1: "treeInv (restoredAttrs d e st)" using t by (rule treeInv_cong) simp_all
  have e1: "edges (restoredAttrs d e st) = edges d" by (rule edges_cong) simp_all
  have t2: "treeInv (case os_parent st of None \<Rightarrow> restoredAttrs d e st
              | Some p \<Rightarrow> insertNode (restoredAttrs d e st) p e (os_nextSibling st))"
  proof (cases "os_parent st")
    case None
    with t1 show ?thesis by simp
  next
    case (Some p)
    with s have p: "p < nextNode d" "(e, p) \<notin> (edges d)\<^sup>*" by (simp_all add: sessionInv_def)
    have "treeInv (insertNode (restoredAttrs d e st) p e (os_nextSibling st))"
      using e(1) p n(1,2) by (intro treeInv_insertNode t1) (simp_all add: e1)
    with Some show ?thesis by simp
  qed
  then show "treeInv (reinserted d e st)"
    by (auto simp: reinserted_def Let_def intro: treeInv_play)
  show "overlayInv (reinserted d e st) ov'"
  proof (rule overlayInvI)
    fix m assume m: "m < nextNode (reinserted d e st)"
      and i: "elemId (elements (reinserted d e st) m) = OVERLAY_ID"
    from i e(2) have me: "m \<noteq> e" by auto
    from m i have "m < nextNode d" "elemId (elements d m) = OVERLAY_ID" by simp_all
    from overlayInvD[OF o this] me
    show "m \<noteq> documentElement (reinserted d e st) \<and>
      tagName (elements (reinserted d e st) m) = ''DIV'' \<and>
      set (classList (elements (reinserted d e st) m))
        \<subseteq> {''pane-fullscreen-overlay'', ''active''} \<and>
      clickListeners (elements (reinserted d e st) m) = [] \<and>
      (parentOf (reinserted d e st) m = None \<or>
       (parentOf (reinserted d e st) m = Some (body (reinserted d e st)) \<and> ov' = Some m))"
      by simp
  qed
qed

lemma exitDocument_inv:
  assumes t: "treeInv d" and o: "overlayInv d ov'" and s: "sessionInv d e st ov ec"
  shows "treeInv (exitDocument d e st)" and "overlayInv (exitDocument d e st) ov''"
    and "set (overlaysInDocument (exitDocument d e st)) = {}"
    and "parentOf (exitDocument d e st) m =
           (if m < nextNode d \<and> elemId (elements d m) = OVERLAY_ID then None
            else parentOf (reinserted d e st) m)"
proof -
  note r = reinserted_inv[OF t o s]
  show t': "treeInv (exitDocument d e st)"
    unfolding exitDocument_def by (rule treeInv_withoutOverlay[OF r])
  show o': "overlayInv (exitDocument d e st) ov''" for ov''
    unfolding exitDocument_def by (rule overlayInv_withoutOverlay[OF r])
  show p: "parentOf (exitDocument d e st) m =
           (if m < nextNode d \<and> elemId (elements d m) = OVERLAY_ID then None
            else parentOf (reinserted d e st) m)" for m
    unfolding exitDocument_def parentOf_withoutOverlay[OF r] by simp
  show "set (overlaysInDocument (exitDocument d e st)) = {}"
    unfolding overlaysInDocument_set[OF t' o'] by (auto simp: p)
qed

lemma exitDocument_position:
  assumes t: "treeInv d" and o: "overlayInv d (Some ov)" and s: "sessionInv d e st ov ec"
    and sp: "siblingInPlace d st" and par: "os_parent st = Some p"
  shows "parentOf (exitDocument d e st) e = Some p"
    and "nextSibling (exitDocument d e st) e = os_nextSibling st"
proof -
  let ?R = "reinserted d e st"
  let ?I = "insertNode (restoredAttrs d e st) p e (os_nextSibling st)"
  note r = reinserted_inv[OF t o s]
  note n = sessionInv_nodes[OF t s]
  from s par have e: "e < nextNode d" "elemId (elements d e) \<noteq> OVERLAY_ID"
    and p: "p < nextNode d" "(e, p) \<notin> (edges d)\<^sup>*"
    and sb: "\<And>sb. os_nextSibling st = Some sb \<Longrightarrow> sb \<noteq> e \<and> sb \<noteq> ov \<and> sb < nextNode d"
    by (simp_all add: sessionInv_def)
  show pe: "parentOf (exitDocument d e st) e = Some p"
    using e par by (simp add: exitDocument_inv(4)[OF t o s])
  have nc: "\<not> contains d e p" using contains_sound[OF t p(1)] p(2) by blast
  have sib: "case os_nextSibling st of None \<Rightarrow> True
             | Some sb \<Rightarrow> sb \<noteq> e \<and> sb \<in> set (childrenOf d p)"
  proof (cases "os_nextSibling st")
    case None
    then show ?thesis by simp
  next
    case (Some x)
    with sp par have "parentOf d x = Some p" by (simp add: siblingInPlace_def)
    with treeInv_parent[OF t, of x p] sb[OF Some] Some show ?thesis by simp
  qed
  from restore_reinserts(3)[OF t e(1) p(1) par nc sib]
  have "nextAfter e (childrenOf ?I p) = os_nextSibling st"
    by (simp add: nextSibling_def)
  moreover have "childrenOf ?R m = childrenOf ?I m" for m
    using par by (simp add: reinserted_def Let_def)
  ultimately have na: "nextAfter e (childrenOf ?R p) = os_nextSibling st" by simp
  have pR: "p < nextNode ?R" using p by simp
  have "nextAfter e (childrenOf (withoutOverlay ?R) p) = os_nextSibling st"
    using withoutOverlay_cases[OF r]
  proof (elim disjE exE conjE)
    assume "withoutOverlay ?R = ?R"
    with na show ?thesis by simp
  next
    fix x assume x: "withoutOverlay ?R = removeNode ?R x" "Some ov = Some x"
      "parentOf ?R x = Some (body ?R)"
    have "nextAfter e (removeAll ov (childrenOf ?R p)) = nextAfter e (childrenOf ?R p)"
    proof (rule nextAfter_removeAll)
      show "distinct (childrenOf ?R p)" by (rule treeInv_distinct[OF r(1) pR])
      show "ov \<noteq> e" using n(3) by simp
      show "nextAfter e (childrenOf ?R p) \<noteq> Some ov" using na sb by auto
    qed
    with x na show ?thesis by simp
  qed
  with pe show "nextSibling (exitDocument d e st) e = os_nextSibling st"
    by (simp add: nextSibling_def exitDocument_def)
qed

lemma exitDocument_detached:
  assumes t: "treeInv d" and o: "overlayInv d (Some ov)" and s: "sessionInv d e st ov ec"
    and par: "os_parent st = None"
  shows "parentOf (exitDocument d e st) e = Some ec"
    and "e \<notin> set (treeOrder (exitDocument d e st) (documentElement (exitDocument d e st)))"
proof -
  let ?D = "exitDocument d e st"
  note i = exitDocument_inv[OF t o s]
  note n = sessionInv_nodes[OF t s]
  from s have e: "e < nextNode d" "elemId (elements d e) \<noteq> OVERLAY_ID"
    "parentOf d e = Some ec" "parentOf d ec = Some ov" "ov < nextNode d"
    "elemId (elements d ov) = OVERLAY_ID"
    by (simp_all add: sessionInv_def)
  show pe: "parentOf ?D e = Some ec" using e par by (simp add: i(4))
  have pov: "parentOf ?D ov = None" using e by (simp add: i(4))
  have pec: "parentOf ?D ec = None \<or> parentOf ?D ec = Some ov"
    using e par n(6) by (simp add: i(4))
  show "e \<notin> set (treeOrder ?D (documentElement ?D))"
  proof
    assume "e \<in> set (treeOrder ?D (documentElement ?D))"
    from treeOrder_edges[OF i(1) treeInv_root(1)[OF i(1)] this]
    have "(documentElement d, e) \<in> (edges ?D)\<^sup>*" by simp
    from ancestor_step(1)[OF this pe] n have c: "(documentElement d, ec) \<in> (edges ?D)\<^sup>*"
      by auto
    from pec show False
    proof
      assume "parentOf ?D ec = None"
      from ancestor_step(2)[OF c this] n show False by simp
    next
      assume "parentOf ?D ec = Some ov"
      from ancestor_step(1)[OF c this] n have "(documentElement d, ov) \<in> (edges ?D)\<^sup>*"
        by auto
      from ancestor_step(2)[OF this pov] n show False by simp
    qed
  qed
qed

lemma Inv_exit:
  assumes i: "Inv s"
  shows "Inv (snd (exitPaneFullscreen s))"
    and "nextNode (doc (snd (exitPaneFullscreen s))) = nextNode (doc s)"
    and "elemId (elements (doc (snd (exitPaneFullscreen s))) m) = elemId (elements (doc s) m)"
proof -
  have "Inv (snd (exitPaneFullscreen s)) \<and>
    nextNode (doc (snd (exitPaneFullscreen s))) = nextNode (doc s) \<and>
    elemId (elements (doc (snd (exitPaneFullscreen s))) m) = elemId (elements (doc s) m)"
  proof (cases "isActive s")
    case False
    with i show ?thesis by (simp add: exitPaneFullscreen_def)
  next
    case True
    with i obtain e st ov ec where c: "currentElement s = Some e"
      "originalElementState s = Some st" "overlay s = Some ov" "elementContainer s = Some ec"
      "sessionInv (doc s) e st ov ec"
      unfolding Inv_def by blast
    from i have t: "treeInv (doc s)" and o: "overlayInv (doc s) (overlay s)"
      by (simp_all add: Inv_def)
    note x = exit_effect[OF t True c(1,2,5)]
    show ?thesis
    proof (cases "siblingInPlace (doc s) st")
      case True
      with x exitDocument_inv(1,2)[OF t o c(5)] show ?thesis
        by (simp add: Inv_def)
    next
      case False
      from c(5) have "elemId (elements (doc s) e) \<noteq> OVERLAY_ID" by (simp add: sessionInv_def)
      from Inv_attrOnly[OF i attrOnly_restoredAttrs[OF this]]
      have "Inv (s\<lparr>doc := restoredAttrs (doc s) e st\<rparr>)" by (simp add: restoredAttrs_def)
      with False x show ?thesis by simp
    qed
  qed
  then show "Inv (snd (exitPaneFullscreen s))"
    and "nextNode (doc (snd (exitPaneFullscreen s))) = nextNode (doc s)"
    and "elemId (elements (doc (snd (exitPaneFullscreen s))) m) = elemId (elements (doc s) m)"
    by simp_all
qed

subsection \<open>Entering in every state\<close>

lemma contains_chain:
  assumes p: "parentOf d n = Some p1" "parentOf d p1 = Some p2" "parentOf d p2 = Some p3"
    and a: "a = p2 \<or> a = p3" and k: "3 \<le> nextNode d"
  shows "contains d a n"
proof -
  from k have "nextNode d = Suc (Suc (Suc (nextNode d - 3)))" by simp
  then have "contains d a n = ancestorWalk (Suc (Suc (Suc (nextNode d - 3)))) (parentOf d) a n"
    by (simp add: contains_def)
  with p a show ?thesis by auto
qed

lemma enter_root:
  assumes t: "treeInv (doc s)" and o: "overlayInv (doc s) (overlay s)" and na: "\<not> isActive s"
    and e: "e = body (doc s) \<or> e = documentElement (doc s)"
  shows "enterPaneFullscreen (Some e) ty s =
           (Threw HierarchyRequestError,
            s\<lparr>originalElementState := Some (saveElementState (doc s) e),
              currentElement := Some e,
              doc := classListAdd (overlayAttached (withoutOverlay (doc s))) e (markerClass ty),
              overlay := Some (nextNode (doc s)),
              elementContainer := Some (Suc (nextNode (doc s)))\<rparr>)"
proof -
  let ?st = "saveElementState (doc s) e"
  let ?s2 = "s\<lparr>originalElementState := Some ?st, currentElement := Some e\<rparr>"
  let ?d1 = "classListAdd (overlayAttached (withoutOverlay (doc s))) e (markerClass ty)"
  note r = treeInv_root[OF t]
  have c: "createOverlay ?s2 =
             (Returned (),
              ?s2\<lparr>doc := overlayAttached (withoutOverlay (doc s)),
                   overlay := Some (nextNode (doc s)),
                   elementContainer := Some (Suc (nextNode (doc s)))\<rparr>)"
    using createOverlay_ok[of ?s2] treeInv_withoutOverlay[OF t o] by simp
  have p: "parentOf ?d1 (Suc (nextNode (doc s))) = Some (nextNode (doc s))"
    "parentOf ?d1 (nextNode (doc s)) = Some (body (doc s))"
    "parentOf ?d1 (body (doc s)) = Some (documentElement (doc s))"
    using r overlayInvD(1)[OF o r(1)] overlayInvD(5)[OF o r(2)]
    by (auto simp: parentOf_withoutOverlay[OF t o])
  have "contains ?d1 e (Suc (nextNode (doc s)))"
    using p e by (intro contains_chain[OF p]) simp_all
  then have a: "appendChild ?d1 (Suc (nextNode (doc s))) e = Inl HierarchyRequestError"
    by (simp add: appendChild_def insertBefore_def)
  show ?thesis
    using na by (simp add: enterPaneFullscreen_def Let_def c a)
qed

lemma overlayAttached_elemId:
  "m < nextNode d \<Longrightarrow> elemId (elements (overlayAttached d) m) = elemId (elements d m)"
  by simp

lemma Inv_enter_root:
  assumes i: "Inv s" and na: "\<not> isActive s"
    and e: "e = body (doc s) \<or> e = documentElement (doc s)"
    and ne: "elemId (elements (doc s) e) \<noteq> OVERLAY_ID"
  shows "Inv (snd (enterPaneFullscreen (Some e) ty s))"
proof -
  from i have t: "treeInv (doc s)" and o: "overlayInv (doc s) (overlay s)"
    by (simp_all add: Inv_def)
  let ?A = "overlayAttached (withoutOverlay (doc s))"
  note r = overlay_ready[OF t o]
  have en: "e < nextNode (doc s)" using e treeInv_root(1,2)[OF t] by auto
  then have ne': "elemId (elements ?A e) \<noteq> OVERLAY_ID" using ne by simp
  have "overlayInv (classListAdd ?A e (markerClass ty)) (Some (nextNode (doc s)))"
    unfolding classListAdd_def
    by (rule overlayInv_attrOnly[OF r(2)], rule attrOnly_classListAdd[OF _ r(2)])
       (use ne' en in simp_all)
  with treeInv_classListAdd[OF r(1)] na show ?thesis
    unfolding enter_root[OF t o na e] Inv_def by simp
qed

lemma Inv_enter_idle:
  assumes i: "Inv s" and na: "\<not> isActive s" and e: "e < nextNode (doc s)"
    and ne: "elemId (elements (doc s) e) \<noteq> OVERLAY_ID"
  shows "Inv (snd (enterPaneFullscreen (Some e) ty s))"
    and "nextNode (doc (snd (enterPaneFullscreen (Some e) ty s))) = nextNode (doc s) + 4"
proof -
  from i have t: "treeInv (doc s)" and o: "overlayInv (doc s) (overlay s)"
    by (simp_all add: Inv_def)
  have "Inv (snd (enterPaneFullscreen (Some e) ty s)) \<and>
    nextNode (doc (snd (enterPaneFullscreen (Some e) ty s))) = nextNode (doc s) + 4"
  proof (cases "e = body (doc s) \<or> e = documentElement (doc s)")
    case True
    from Inv_enter_root[OF i na True ne] show ?thesis
      by (simp add: enter_root[OF t o na True])
  next
    case False
    then have f: "e \<noteq> body (doc s)" "e \<noteq> documentElement (doc s)" by simp_all
    from Inv_enter_inactive[OF i na e f ne] show ?thesis
      by (simp add: enter_inactive[OF t o na e f])
  qed
  then show "Inv (snd (enterPaneFullscreen (Some e) ty s))"
    and "nextNode (doc (snd (enterPaneFullscreen (Some e) ty s))) = nextNode (doc s) + 4"
    by simp_all
qed

lemma enter_exit_first:
  assumes "isActive s" "fst (exitPaneFullscreen s) = Returned u"
    "\<not> isActive (snd (exitPaneFullscreen s))"
  shows "enterPaneFullscreen (Some e) ty s =
           enterPaneFullscreen (Some e) ty (snd (exitPaneFullscreen s))"
  using assms by (cases "exitPaneFullscreen s") (simp add: enterPaneFullscreen_def)

lemma enter_exit_throws:
  assumes "isActive s" "fst (exitPaneFullscreen s) = Threw x"
  shows "enterPaneFullscreen (Some e) ty s = (Threw x, snd (exitPaneFullscreen s))"
  using assms by (cases "exitPaneFullscreen s") (simp add: enterPaneFullscreen_def)

lemma exit_inactive:
  assumes i: "Inv s" and r: "fst (exitPaneFullscreen s) = Returned u"
  shows "\<not> isActive (snd (exitPaneFullscreen s))"
proof (cases "isActive s")
  case False
  then show ?thesis by (simp add: exitPaneFullscreen_def)
next
  case True
  with i obtain e st ov ec where c: "currentElement s = Some e"
    "originalElementState s = Some st" "sessionInv (doc s) e st ov ec"
    unfolding Inv_def by blast
  from i have t: "treeInv (doc s)" by (simp add: Inv_def)
  from r show ?thesis
    unfolding exit_effect[OF t True c] by (simp split: if_splits)
qed

lemma Inv_enter:
  assumes i: "Inv s" and e: "e < nextNode (doc s)"
    and ne: "elemId (elements (doc s) e) \<noteq> OVERLAY_ID"
  shows "Inv (snd (enterPaneFullscreen (Some e) ty s))"
    and "nextNode (doc s) \<le> nextNode (doc (snd (enterPaneFullscreen (Some e) ty s)))"
proof -
  let ?x = "exitPaneFullscreen s"
  note x = Inv_exit[OF i]
  have "Inv (snd (enterPaneFullscreen (Some e) ty s)) \<and>
    nextNode (doc s) \<le> nextNode (doc (snd (enterPaneFullscreen (Some e) ty s)))"
  proof (cases "isActive s")
    case False
    from Inv_enter_idle[OF i False e ne] show ?thesis by simp
  next
    case True
    show ?thesis
    proof (cases "fst ?x")
      case (Threw ex)
      from x show ?thesis by (simp add: enter_exit_throws[OF True Threw])
    next
      case (Returned u)
      note na = exit_inactive[OF i Returned]
      have e': "e < nextNode (doc (snd ?x))" using e x(2) by simp
      have ne': "elemId (elements (doc (snd ?x)) e) \<noteq> OVERLAY_ID" using ne x(3) by simp
      from Inv_enter_idle[OF x(1) na e' ne'] x(2) show ?thesis
        by (simp add: enter_exit_first[OF True Returned na])
    qed
  qed
  then show "Inv (snd (enterPaneFullscreen (Some e) ty s))"
    and "nextNode (doc s) \<le> nextNode (doc (snd (enterPaneFullscreen (Some e) ty s)))"
    by simp_all
qed

lemma enter_returns_false:
  "fst (enterPaneFullscreen el ty s) = Returned False \<longleftrightarrow> el = None"
proof (cases el)
  case None
  then show ?thesis by (simp add: enterPaneFullscreen_def)
next
  case (Some e)
  have "fst (enterPaneFullscreen (Some e) ty s) \<noteq> Returned False"
    by (simp add: enterPaneFullscreen_def Let_def
        split: prod.splits completion.splits option.splits sum.splits)
  with Some show ?thesis by simp
qed

section \<open>Results of enter and exit\<close>

lemma Inv_initialState:
  assumes "wellFormedPage d" shows "Inv (initialState d)"
proof -
  have "overlayInv d None"
    using wellFormedPage_nodeOk[OF assms] by (intro overlayInvI) (simp add: nodeOk_def)
  with wellFormedPage_treeInv[OF assms] show ?thesis
    by (simp add: Inv_def initialState_def)
qed

lemma initialState_simps [simp]:
  "doc (initialState d) = d" "\<not> isActive (initialState d)" "overlay (initialState d) = None"
  by (simp_all add: initialState_def)

lemma exit_roots:
  assumes i: "Inv s"
  shows "body (doc (snd (exitPaneFullscreen s))) = body (doc s)"
    and "documentElement (doc (snd (exitPaneFullscreen s))) = documentElement (doc s)"
proof -
  have "body (doc (snd (exitPaneFullscreen s))) = body (doc s) \<and>
    documentElement (doc (snd (exitPaneFullscreen s))) = documentElement (doc s)"
  proof (cases "isActive s")
    case False
    then show ?thesis by (simp add: exitPaneFullscreen_def)
  next
    case True
    with i obtain e st ov ec where c: "currentElement s = Some e"
      "originalElementState s = Some st" "sessionInv (doc s) e st ov ec"
      unfolding Inv_def by blast
    from i have t: "treeInv (doc s)" by (simp add: Inv_def)
    show ?thesis unfolding exit_effect[OF t True c] by simp
  qed
  then show "body (doc (snd (exitPaneFullscreen s))) = body (doc s)"
    and "documentElement (doc (snd (exitPaneFullscreen s))) = documentElement (doc s)"
    by simp_all
qed

lemma enter_idle_result:
  assumes i: "Inv s" and na: "\<not> isActive s" and e: "e < nextNode (doc s)"
  shows "fst (enterPaneFullscreen (Some e) ty s) =
     (if e = body (doc s) \<or> e = documentElement (doc s) then Threw HierarchyRequestError
      else Returned True)"
proof -
  from i have t: "treeInv (doc s)" and o: "overlayInv (doc s) (overlay s)"
    by (simp_all add: Inv_def)
  show ?thesis
  proof (cases "e = body (doc s) \<or> e = documentElement (doc s)")
    case True
    then show ?thesis by (simp add: enter_root[OF t o na True])
  next
    case False
    then have f: "e \<noteq> body (doc s)" "e \<noteq> documentElement (doc s)" by simp_all
    with False show ?thesis by (simp add: enter_inactive[OF t o na e f])
  qed
qed

lemma enter_node_result:
  assumes i: "Inv s" and e: "e < nextNode (doc s)"
  shows "fst (enterPaneFullscreen (Some e) ty s) =
     (case (if isActive s then fst (exitPaneFullscreen s) else Returned ()) of
        Threw x \<Rightarrow> Threw x
      | Returned u \<Rightarrow>
          if e = body (doc s) \<or> e = documentElement (doc s) then Threw HierarchyRequestError
          else Returned True)"
proof (cases "isActive s")
  case False
  with enter_idle_result[OF i False e] show ?thesis by simp
next
  case True
  let ?x = "exitPaneFullscreen s"
  note x = Inv_exit[OF i] exit_roots[OF i]
  show ?thesis
  proof (cases "fst ?x")
    case (Threw ex)
    with True show ?thesis by (simp add: enter_exit_throws[OF True Threw])
  next
    case (Returned u)
    note na = exit_inactive[OF i Returned]
    have e': "e < nextNode (doc (snd ?x))" using e x(2) by simp
    from enter_idle_result[OF x(1) na e'] True Returned x(4,5) show ?thesis
      by (simp add: enter_exit_first[OF True Returned na])
  qed
qed

lemma bodyPlayerPage_wellFormed: "wellFormedPage bodyPlayerPage"
  by code_simp

lemma bodyPlayerPage_best: "findBestPlayableElement bodyPlayerPage = Some (1, ''container'')"
  by code_simp

lemma detachedPage_wellFormed: "wellFormedPage detachedPage"
  by code_simp

lemma detachedPage_snapshot: "os_parent (saveElementState detachedPage 5) = None"
  by code_simp

lemma detachedSession_eq:
  "detachedSession =
     (initialState detachedPage)
       \<lparr>originalElementState := Some (saveElementState detachedPage 5),
        currentElement := Some 5,
        doc := sessionDocument detachedPage 5 ''video'',
        overlay := Some 6, elementContainer := Some 7, isActive := True\<rparr>"
    and detachedSession_Inv: "Inv detachedSession"
proof -
  note i = Inv_initialState[OF detachedPage_wellFormed]
  then have t: "treeInv (doc (initialState detachedPage))"
    and o: "overlayInv (doc (initialState detachedPage)) (overlay (initialState detachedPage))"
    by (simp_all add: Inv_def)
  have e: "5 < nextNode (doc (initialState detachedPage))"
    "5 \<noteq> body (doc (initialState detachedPage))"
    "5 \<noteq> documentElement (doc (initialState detachedPage))"
    by (simp_all add: detachedPage_def samplePage_def)
  have ne: "elemId (elements (doc (initialState detachedPage)) 5) \<noteq> OVERLAY_ID"
    by (simp add: detachedPage_def sampleElement_def blankElement_def OVERLAY_ID_def)
  have n: "nextNode detachedPage = 6" by (simp add: detachedPage_def)
  have na: "\<not> isActive (initialState detachedPage)" by simp
  show "detachedSession =
     (initialState detachedPage)
       \<lparr>originalElementState := Some (saveElementState detachedPage 5),
        currentElement := Some 5,
        doc := sessionDocument detachedPage 5 ''video'',
        overlay := Some 6, elementContainer := Some 7, isActive := True\<rparr>"
    unfolding detachedSession_def enter_inactive[OF t o na e] by (simp add: n)
  show "Inv detachedSession"
    unfolding detachedSession_def by (rule Inv_enter_inactive[OF i na e ne])
qed

text \<open>
  C10: in a state that satisfies the invariant \<open>Inv\<close>, when the snapshot of the active
  session records no parent, \<^verbatim>\<open>exitPaneFullscreen\<close> returns normally and clears the
  session (active flag, current element, snapshot, overlay and holder); it does not insert
  the node anywhere: the node keeps the detached holder as its parent and is no longer in
  the document, and no overlay element is left in the document.
\<close>

theorem exit_with_detached_snapshot:
  assumes "Inv s" and "isActive s" and "currentElement s = Some e"
    and "originalElementState s = Some st" and "os_parent st = None"
  shows "fst (exitPaneFullscreen s) = Returned () \<and>
     (let s' = snd (exitPaneFullscreen s) in
      \<not> isActive s' \<and> currentElement s' = None \<and> originalElementState s' = None \<and>
      overlay s' = None \<and> elementContainer s' = None \<and>
      parentOf (doc s') e = elementContainer s \<and>
      parentOf (doc s') e = parentOf (doc s) e \<and>
      e \<notin> set (treeOrder (doc s') (documentElement (doc s'))) \<and>
      set (overlaysInDocument (doc s')) = {})"
proof -
  from assms obtain ov ec where c: "overlay s = Some ov" "elementContainer s = Some ec"
    "sessionInv (doc s) e st ov ec"
    unfolding Inv_def by auto
  from assms(1) have t: "treeInv (doc s)" and o: "overlayInv (doc s) (overlay s)"
    by (simp_all add: Inv_def)
  from o c(1) have o': "overlayInv (doc s) (Some ov)" by simp
  have sp: "siblingInPlace (doc s) st" using assms(5) by (simp add: siblingInPlace_def)
  from c(3) have pe: "parentOf (doc s) e = Some ec" by (simp add: sessionInv_def)
  note x = exit_effect[OF t assms(2,3,4) c(3)]
  note d = exitDocument_detached[OF t o' c(3) assms(5)] exitDocument_inv(3)[OF t o' c(3)]
  show ?thesis
    unfolding x using sp d c(2) pe by (simp add: Let_def)
qed

theorem exit_with_detached_snapshot_witness:
  "Inv detachedSession \<and> isActive detachedSession \<and> currentElement detachedSession = Some 5 \<and>
   originalElementState detachedSession = Some (saveElementState detachedPage 5) \<and>
   os_parent (saveElementState detachedPage 5) = None \<and>
   fst (exitPaneFullscreen detachedSession) = Returned () \<and>
   \<not> isActive (snd (exitPaneFullscreen detachedSession)) \<and>
   originalElementState (snd (exitPaneFullscreen detachedSession)) = None \<and>
   parentOf (doc (snd (exitPaneFullscreen detachedSession))) 5 = Some 7 \<and>
   5 \<notin> set (treeOrder (doc (snd (exitPaneFullscreen detachedSession)))
               (documentElement (doc (snd (exitPaneFullscreen detachedSession))))) \<and>
   set (overlaysInDocument (doc (snd (exitPaneFullscreen detachedSession)))) = {}"
proof -
  have a: "isActive detachedSession" "currentElement detachedSession = Some 5"
    "originalElementState detachedSession = Some (saveElementState detachedPage 5)"
    "elementContainer detachedSession = Some 7"
    by (simp_all add: detachedSession_eq)
  from exit_with_detached_snapshot[OF detachedSession_Inv a(1,2,3) detachedPage_snapshot]
    detachedSession_Inv a detachedPage_snapshot
  show ?thesis by (simp add: Let_def)
qed

text \<open>
  What \<^verbatim>\<open>enterPaneFullscreen\<close> does with a node of the page, in a state that satisfies
  the invariant: it first exits the active session, if any, and throws what this exit
  throws; after that it throws \<^verbatim>\<open>HierarchyRequestError\<close> when the node is the body or
  the root element, and returns \<^verbatim>\<open>true\<close> for every other node.
\<close>

lemma enter_outcome:
  "(fst (enterPaneFullscreen el ty s) = Returned False \<longleftrightarrow> el = None) \<and>
   enterPaneFullscreen None ty s = (Returned False, s) \<and>
   (Inv s \<and> e < nextNode (doc s) \<longrightarrow>
      fst (enterPaneFullscreen (Some e) ty s) =
        (case (if isActive s then fst (exitPaneFullscreen s) else Returned ()) of
           Threw x \<Rightarrow> Threw x
         | Returned u \<Rightarrow>
             if e = body (doc s) \<or> e = documentElement (doc s)
             then Threw HierarchyRequestError else Returned True))"
  using enter_returns_false[of el ty s] enter_node_result[of s e ty]
  by (simp add: enterPaneFullscreen_def)

lemma enter_outcome_sample:
  "Inv (initialState samplePage) \<and> (2 :: nat) < nextNode (doc (initialState samplePage)) \<and>
   fst (enterPaneFullscreen (Some 2) ''video'' (initialState samplePage)) = Returned True \<and>
   enterPaneFullscreen None ''video'' (initialState samplePage)
     = (Returned False, initialState samplePage)"
proof -
  have i: "Inv (initialState samplePage)" by (rule Inv_initialState[OF samplePage_wellFormed])
  have n: "(2 :: nat) < nextNode (doc (initialState samplePage))"
    "2 \<noteq> body (doc (initialState samplePage))"
    "2 \<noteq> documentElement (doc (initialState samplePage))"
    by (simp_all add: samplePage_def)
  from enter_outcome[of None "''video''" "initialState samplePage" 2] i n
  show ?thesis by simp
qed

section \<open>The invariant holds in every reachable state\<close>

subsection \<open>Candidates are nodes of the page and never overlay elements\<close>

lemma bestLoop_mem:
  "fst (bestLoop d xs (b, bs)) = Some y \<Longrightarrow> b = Some y \<or> y \<in> set xs"
  by (induction xs arbitrary: b bs) (auto simp: Let_def split: if_splits)

lemma best_candidate:
  assumes "findBestPlayableElement d = Some (e, ty)"
  shows "e \<in> set (findAllVideos d) \<union> set (findVideoIframes d) \<union> set (findVideoContainers d)"
proof -
  have b: "(if xs = [] then None else fst (bestLoop d xs (None, 0))) = Some y \<Longrightarrow> y \<in> set xs"
    for xs y
    using bestLoop_mem[of d xs None 0 y] by (auto split: if_splits)
  from assms show ?thesis
    by (auto simp: findBestPlayableElement_def findBestVideo_def findBestIframe_def
        findBestContainer_def Let_def split: option.splits dest: b)
qed

lemma selectable_candidate:
  assumes "x \<in> set (getAllSelectableElements d)"
  shows "fst x \<in> set (findAllVideos d) \<union> set (findVideoIframes d) \<union> set (findVideoContainers d)"
  using assms by (auto simp: getAllSelectableElements_def foldl_addContainer)

lemma overlay_classes_no_pattern:
  "\<not> strIncludes ''pane-fullscreen-overlay'' ''video-player''"
  "\<not> strIncludes ''pane-fullscreen-overlay'' ''player-container''"
  "\<not> strIncludes ''active'' ''video-player''"
  "\<not> strIncludes ''active'' ''player-container''"
  by code_simp+

lemma overlay_not_selected:
  assumes i: "elemId e = OVERLAY_ID"
    and c: "set (classList e) \<subseteq> {''pane-fullscreen-overlay'', ''active''}"
    and s: "sel \<in> set VIDEO_CONTAINER_SELECTORS"
  shows "\<not> matches sel e"
proof -
  have p: "\<forall>x\<in>set (classList e). \<not> strIncludes x ''video-player''"
    "\<forall>x\<in>set (classList e). \<not> strIncludes x ''player-container''"
    using c overlay_classes_no_pattern by auto
  have q: "''video-player'' \<notin> set (classList e)" "''player-container'' \<notin> set (classList e)"
    "''video-container'' \<notin> set (classList e)" "''player-wrapper'' \<notin> set (classList e)"
    "''video-wrapper'' \<notin> set (classList e)"
    using c by auto
  have r: "\<not> strIncludes (elemId e) ''video-player''"
    "\<not> strIncludes (elemId e) ''player-container''"
    using overlay_classes_no_pattern by (simp_all add: i OVERLAY_ID_def)
  have u: "elemId e \<noteq> ''video-player''" "elemId e \<noteq> ''player-container''"
    "elemId e \<noteq> ''player''"
    by (simp_all add: i OVERLAY_ID_def)
  have "\<forall>sel\<in>set VIDEO_CONTAINER_SELECTORS. \<not> matches sel e"
    unfolding VIDEO_CONTAINER_SELECTORS_def using p q r u by (simp add: list_ex_iff)
  with s show ?thesis by blast
qed

lemma query_bound:
  assumes "treeInv d" "r < nextNode d" "e \<in> set (querySelectorAll d r P)"
  shows "e < nextNode d" "P (elements d e)"
  using assms treeOrder_bound[OF assms(1,2), of e] by (auto simp: querySelectorAll_def)

lemma candidate_ok:
  assumes t: "treeInv d" and o: "overlayInv d ov"
    and c: "e \<in> set (findAllVideos d) \<union> set (findVideoIframes d) \<union> set (findVideoContainers d)"
  shows "e < nextNode d \<and> elemId (elements d e) \<noteq> OVERLAY_ID"
proof -
  note r = treeInv_root(1)[OF t]
  from c consider
      (video) "e \<in> set (querySelectorAll d (documentElement d) (isTag ''VIDEO''))"
    | (inner) f r where "f \<in> set (querySelectorAll d (documentElement d) (isTag ''IFRAME''))"
        "contentDocument (elements d f) = Some r"
        "e \<in> set (querySelectorAll d r (isTag ''VIDEO''))"
    | (frame) "e \<in> set (querySelectorAll d (documentElement d) (isTag ''IFRAME''))"
    | (container) sel where "sel \<in> set VIDEO_CONTAINER_SELECTORS"
        "e \<in> set (querySelectorAll d (documentElement d) (matches sel))"
    by (auto simp: findAllVideos_def findVideoIframes_def findVideoContainers_def
        split: option.splits) metis
  then show ?thesis
  proof cases
    case video
    from query_bound[OF t r video] overlayInvD(2)[OF o, of e] show ?thesis
      by (auto simp: isTag_def)
  next
    case inner
    from query_bound(1)[OF t r inner(1)] inner(2) have "r < nextNode d"
      by (rule treeInv_contentDocument[OF t])
    from query_bound[OF t this inner(3)] overlayInvD(2)[OF o, of e] show ?thesis
      by (auto simp: isTag_def)
  next
    case frame
    from query_bound[OF t r frame] overlayInvD(2)[OF o, of e] show ?thesis
      by (auto simp: isTag_def)
  next
    case container
    note q = query_bound[OF t r container(2)]
    from overlay_not_selected[OF _ _ container(1), of "elements d e"] q
      overlayInvD(3)[OF o q(1)]
    show ?thesis by auto
  qed
qed

subsection \<open>Pick mode\<close>

lemma Inv_ignores [simp]:
  "Inv (s\<lparr>selectMode := a\<rparr>) = Inv s"
  "Inv (s\<lparr>cancelListeners := c\<rparr>) = Inv s"
  "Inv (s\<lparr>pendingTimers := p\<rparr>) = Inv s"
  by (simp_all add: Inv_def)

lemma body_not_overlay:
  assumes t: "treeInv d" and o: "overlayInv d ov"
  shows "elemId (elements d (body d)) \<noteq> OVERLAY_ID"
proof
  assume i: "elemId (elements d (body d)) = OVERLAY_ID"
  note r = treeInv_root[OF t]
  from overlayInvD(5)[OF o r(2) i] r(4,5) show False by auto
qed

lemma attrOnly_keep:
  assumes o: "overlayInv d ov" and n: "n < nextNode d"
    and f: "\<And>e. parentNode (f e) = parentNode e \<and> childNodes (f e) = childNodes e \<and>
      contentDocument (f e) = contentDocument e \<and> elemId (f e) = elemId e \<and>
      tagName (f e) = tagName e \<and> set (classList (f e)) \<subseteq> set (classList e) \<and>
      (clickListeners e = [] \<longrightarrow> clickListeners (f e) = [])"
  shows "attrOnly d n f"
proof -
  have "elemId (elements d n) = OVERLAY_ID \<Longrightarrow>
    set (classList (f (elements d n))) \<subseteq> {''pane-fullscreen-overlay'', ''active''} \<and>
    clickListeners (f (elements d n)) = []"
    using overlayInvD(3,4)[OF o n] f[of "elements d n"] by blast
  with f[of "elements d n"] show ?thesis
    by (simp add: attrOnly_def Let_def del: fold_parentOf fold_childrenOf)
qed

lemma markSelectable_upd:
  "markSelectable d x =
     upd d (fst x)
       (\<lambda>e. (if ''pane-fullscreen-selectable'' \<in> set (classList e) then e
              else e\<lparr>classList := classList e @ [''pane-fullscreen-selectable'']\<rparr>)
             \<lparr>paneFullscreenType := Some (snd x),
              clickListeners :=
                clickListeners (if ''pane-fullscreen-selectable'' \<in> set (classList e) then e
                   else e\<lparr>classList := classList e @ [''pane-fullscreen-selectable'']\<rparr>)
                @ [snd x],
              paneFullscreenHandler := Some (snd x)\<rparr>)"
  by (simp add: markSelectable_def Let_def classListAdd_def upd_upd)

lemma markSelectable_simps [simp]:
  "nextNode (markSelectable d x) = nextNode d"
  "elemId (elements (markSelectable d x) m) = elemId (elements d m)"
  by (simp_all add: markSelectable_upd)

lemma Inv_markSelectable:
  assumes "Inv s" "elemId (elements (doc s) (fst x)) \<noteq> OVERLAY_ID"
  shows "Inv (s\<lparr>doc := markSelectable (doc s) x\<rparr>)"
  unfolding markSelectable_upd
  by (rule Inv_attrOnly[OF assms(1)], rule attrOnly_not_overlay[OF assms(2)]) simp

lemma Inv_foldl_mark:
  assumes "Inv s" "\<forall>x\<in>set xs. elemId (elements (doc s) (fst x)) \<noteq> OVERLAY_ID"
  shows "Inv (s\<lparr>doc := foldl markSelectable (doc s) xs\<rparr>)"
  using assms
proof (induction xs arbitrary: s)
  case Nil
  then show ?case by simp
next
  case (Cons x xs)
  let ?s = "s\<lparr>doc := markSelectable (doc s) x\<rparr>"
  from Cons.prems have "Inv ?s" by (intro Inv_markSelectable) simp_all
  moreover have "\<forall>y\<in>set xs. elemId (elements (doc ?s) (fst y)) \<noteq> OVERLAY_ID"
    using Cons.prems(2) by simp
  ultimately have "Inv (?s\<lparr>doc := foldl markSelectable (doc ?s) xs\<rparr>)" by (rule Cons.IH)
  then show ?case by simp
qed

lemma foldl_mark_simps [simp]:
  "nextNode (foldl markSelectable d xs) = nextNode d"
  "elemId (elements (foldl markSelectable d xs) m) = elemId (elements d m)"
  by (induction xs arbitrary: d) simp_all

lemma Inv_classListAdd:
  assumes i: "Inv s" and n: "n < nextNode (doc s)"
    and c: "elemId (elements (doc s) n) = OVERLAY_ID \<Longrightarrow>
            c \<in> {''pane-fullscreen-overlay'', ''active''}"
  shows "Inv (s\<lparr>doc := classListAdd (doc s) n c\<rparr>)"
proof -
  from i have o: "overlayInv (doc s) (overlay s)" by (simp add: Inv_def)
  show ?thesis
    unfolding classListAdd_def
    by (rule Inv_attrOnly[OF i], rule attrOnly_classListAdd[OF c o n])
qed

lemma Inv_classListRemove:
  assumes i: "Inv s" and n: "n < nextNode (doc s)"
  shows "Inv (s\<lparr>doc := classListRemove (doc s) n c\<rparr>)"
proof -
  from i have o: "overlayInv (doc s) (overlay s)" by (simp add: Inv_def)
  show ?thesis
    unfolding classListRemove_def
    by (rule Inv_attrOnly[OF i], rule attrOnly_keep[OF o n]) auto
qed

lemma Inv_enableSelectMode:
  assumes i: "Inv s"
  shows "Inv (snd (enableSelectMode s))"
proof (cases "selectMode s")
  case True
  with i show ?thesis by (simp add: enableSelectMode_def)
next
  case False
  from i have t: "treeInv (doc s)" and o: "overlayInv (doc s) (overlay s)"
    by (simp_all add: Inv_def)
  let ?d = "classListAdd (doc s) (body (doc s)) ''pane-fullscreen-select-mode''"
  let ?s = "s\<lparr>doc := ?d\<rparr>"
  have i1: "Inv ?s"
    using body_not_overlay[OF t o] treeInv_root(2)[OF t] by (intro Inv_classListAdd[OF i]) simp_all
  then have t1: "treeInv ?d" and o1: "overlayInv ?d (overlay s)" by (simp_all add: Inv_def)
  have "\<forall>x\<in>set (getAllSelectableElements ?d). elemId (elements (doc ?s) (fst x)) \<noteq> OVERLAY_ID"
    using candidate_ok[OF t1 o1 selectable_candidate] by simp
  from Inv_foldl_mark[OF i1 this] False show ?thesis
    by (simp add: enableSelectMode_def Let_def Inv_def)
qed

lemma enableSelectMode_simps [simp]:
  "nextNode (doc (snd (enableSelectMode s))) = nextNode (doc s)"
  by (simp add: enableSelectMode_def Let_def)

lemma unmarkSelectable_upd:
  "unmarkSelectable d n =
     upd d n
       (\<lambda>e. if paneFullscreenHandler e \<noteq> None
            then e\<lparr>classList := removeAll ''pane-fullscreen-selectable'' (classList e),
                   paneFullscreenType := None, clickListeners := butlast (clickListeners e),
                   paneFullscreenHandler := None\<rparr>
            else e\<lparr>classList := removeAll ''pane-fullscreen-selectable'' (classList e),
                   paneFullscreenType := None\<rparr>)"
  by (simp add: unmarkSelectable_def Let_def classListRemove_def upd_upd upd_def fun_eq_iff
      del: fold_parentOf fold_childrenOf)

lemma unmarkSelectable_simps [simp]:
  "nextNode (unmarkSelectable d n) = nextNode d"
  "elemId (elements (unmarkSelectable d n) m) = elemId (elements d m)"
  by (simp_all add: unmarkSelectable_upd)

lemma Inv_unmarkSelectable:
  assumes i: "Inv s" and n: "n < nextNode (doc s)"
  shows "Inv (s\<lparr>doc := unmarkSelectable (doc s) n\<rparr>)"
proof -
  from i have o: "overlayInv (doc s) (overlay s)" by (simp add: Inv_def)
  show ?thesis
    unfolding unmarkSelectable_upd
    by (rule Inv_attrOnly[OF i], rule attrOnly_keep[OF o n]) auto
qed

lemma Inv_foldl_unmark:
  assumes "Inv s" "\<forall>n\<in>set xs. n < nextNode (doc s)"
  shows "Inv (s\<lparr>doc := foldl unmarkSelectable (doc s) xs\<rparr>)"
  using assms
proof (induction xs arbitrary: s)
  case Nil
  then show ?case by simp
next
  case (Cons x xs)
  let ?s = "s\<lparr>doc := unmarkSelectable (doc s) x\<rparr>"
  from Cons.prems have "Inv ?s" by (intro Inv_unmarkSelectable) simp_all
  moreover have "\<forall>n\<in>set xs. n < nextNode (doc ?s)" using Cons.prems(2) by simp
  ultimately have "Inv (?s\<lparr>doc := foldl unmarkSelectable (doc ?s) xs\<rparr>)" by (rule Cons.IH)
  then show ?case by simp
qed

lemma foldl_unmark_simps [simp]:
  "nextNode (foldl unmarkSelectable d xs) = nextNode d"
  "elemId (elements (foldl unmarkSelectable d xs) m) = elemId (elements d m)"
  by (induction xs arbitrary: d) simp_all

lemma classList_attr_simps [simp]:
  "elemId (elements (classListRemove d n c) m) = elemId (elements d m)"
  by (simp add: classListRemove_def)

lemma Inv_disableSelectMode:
  assumes i: "Inv s"
  shows "Inv (disableSelectMode s)"
proof (cases "selectMode s")
  case False
  with i show ?thesis by (simp add: disableSelectMode_def)
next
  case True
  from i have t: "treeInv (doc s)" by (simp add: Inv_def)
  let ?d = "classListRemove (doc s) (body (doc s)) ''pane-fullscreen-select-mode''"
  let ?s = "s\<lparr>doc := ?d\<rparr>"
  have i1: "Inv ?s" using treeInv_root(2)[OF t] by (intro Inv_classListRemove[OF i])
  then have t1: "treeInv ?d" by (simp add: Inv_def)
  have "\<forall>n\<in>set (querySelectorAll ?d (documentElement ?d)
              (matches (ClassIs ''pane-fullscreen-selectable''))). n < nextNode (doc ?s)"
    using query_bound(1)[OF t1 treeInv_root(1)[OF t1]] by simp
  from Inv_foldl_unmark[OF i1 this] True show ?thesis
    by (simp add: disableSelectMode_def Let_def Inv_def)
qed

lemma disableSelectMode_simps [simp]:
  "nextNode (doc (disableSelectMode s)) = nextNode (doc s)"
  "elemId (elements (doc (disableSelectMode s)) m) = elemId (elements (doc s) m)"
  by (simp_all add: disableSelectMode_def Let_def)

subsection \<open>Events\<close>

lemma Inv_clickLoop:
  assumes "Inv s" "e < nextNode (doc s)"
  shows "Inv (clickLoop k e s)"
  using assms
proof (induction k arbitrary: s)
  case 0
  then show ?case by simp
next
  case (Suc k)
  show ?case
  proof (cases "clickListeners (elements (doc s) e)")
    case Nil
    with Suc.prems show ?thesis by simp
  next
    case (Cons ty rest)
    from Suc.prems(1) have o: "overlayInv (doc s) (overlay s)" by (simp add: Inv_def)
    from overlayInvD(4)[OF o Suc.prems(2)] Cons
    have ne: "elemId (elements (doc s) e) \<noteq> OVERLAY_ID" by auto
    let ?s1 = "s\<lparr>doc := upd (doc s) e (\<lambda>x. x\<lparr>clickListeners := rest\<rparr>)\<rparr>"
    have i1: "Inv ?s1"
      by (rule Inv_attrOnly[OF Suc.prems(1)], rule attrOnly_not_overlay[OF ne]) simp
    let ?s2 = "disableSelectMode ?s1"
    have i2: "Inv ?s2" by (rule Inv_disableSelectMode[OF i1])
    have e2: "e < nextNode (doc ?s2)" using Suc.prems(2) by simp
    have ne2: "elemId (elements (doc ?s2) e) \<noteq> OVERLAY_ID" using ne by simp
    note x = Inv_enter[OF i2 e2 ne2, of ty]
    have "Inv (clickLoop k e (snd (enterPaneFullscreen (Some e) ty ?s2)))"
      using x e2 by (intro Suc.IH) simp_all
    with Cons show ?thesis by (simp add: handleElementSelect_def)
  qed
qed

lemma Inv_keydown: "Inv s \<Longrightarrow> Inv (keydown k s)"
  using Inv_exit(1)[of s] Inv_disableSelectMode[of "s\<lparr>cancelListeners := 0\<rparr>"]
  by (simp add: keydown_def Let_def)

lemma Inv_timerFired: "Inv s \<Longrightarrow> Inv (timerFired s)"
  using Inv_disableSelectMode[of "s\<lparr>pendingTimers := pendingTimers s - 1\<rparr>"]
  by (simp add: timerFired_def Let_def)

lemma Inv_animationFrame:
  assumes i: "Inv s" shows "Inv (animationFrame s)"
proof (cases "overlay s")
  case None
  with i show ?thesis by (simp add: animationFrame_def)
next
  case (Some ov)
  with i have "ov < nextNode (doc s)" by (simp add: Inv_def)
  from Inv_classListAdd[OF i this, of "''active''"] Some show ?thesis
    by (simp add: animationFrame_def)
qed

lemma Inv_hintTimerFired:
  assumes i: "Inv s" and h: "h < nextNode (doc s)"
    and c: "''pane-fullscreen-hint'' \<in> set (classList (elements (doc s) h))"
  shows "Inv (hintTimerFired h s)"
proof -
  from i have o: "overlayInv (doc s) (overlay s)" by (simp add: Inv_def)
  have "elemId (elements (doc s) h) \<noteq> OVERLAY_ID"
    using overlayInvD(3)[OF o h] c by auto
  from Inv_classListAdd[OF i h, of "''fade-out''"] this show ?thesis
    by (simp add: hintTimerFired_def)
qed

lemma Inv_layoutChange:
  assumes i: "Inv s" and n: "n < nextNode (doc s)"
  shows "Inv (layoutChange n r p en du ct s)"
proof -
  from i have o: "overlayInv (doc s) (overlay s)" by (simp add: Inv_def)
  show ?thesis
    unfolding layoutChange_def
    by (rule Inv_attrOnly[OF i], rule attrOnly_keep[OF o n]) simp
qed

lemma Inv_onMessage:
  assumes i: "Inv s" shows "Inv (snd (onMessage r s))"
proof (cases r)
  case AutoFullscreen
  from i have t: "treeInv (doc s)" and o: "overlayInv (doc s) (overlay s)"
    by (simp_all add: Inv_def)
  show ?thesis
  proof (cases "findBestPlayableElement (doc s)")
    case None
    with i AutoFullscreen show ?thesis by simp
  next
    case (Some x)
    obtain e ty where x: "x = (e, ty)" by (cases x)
    from candidate_ok[OF t o best_candidate] Some x
    have "e < nextNode (doc s)" "elemId (elements (doc s) e) \<noteq> OVERLAY_ID" by simp_all
    from Inv_enter(1)[OF i this, of ty] AutoFullscreen Some x show ?thesis
      by (cases "enterPaneFullscreen (Some e) ty s")
         (simp split: completion.splits)
  qed
next
  case SelectVideo
  from Inv_enableSelectMode[OF i] Inv_disableSelectMode[of "snd (enableSelectMode s)"]
  show ?thesis using SelectVideo by (cases "enableSelectMode s") simp
next
  case ExitFullscreen
  from Inv_exit(1)[OF i] show ?thesis
    using ExitFullscreen by (cases "exitPaneFullscreen s") (simp split: completion.splits)
next
  case GetStatus
  with i show ?thesis by (simp add: Let_def)
next
  case OtherAction
  with i show ?thesis by simp
qed

lemma reachable_Inv: "reachable s \<Longrightarrow> Inv s"
proof (induction rule: reachable.induct)
  case (start d)
  then show ?case by (rule Inv_initialState)
next
  case (message s r)
  then show ?case by (simp add: Inv_onMessage)
next
  case (clicked s element)
  then show ?case by (simp add: click_def Inv_clickLoop)
next
  case (closed s)
  then show ?case by (simp add: Inv_exit(1))
next
  case (key s k)
  then show ?case by (simp add: Inv_keydown)
next
  case (timer s)
  then show ?case by (simp add: Inv_timerFired)
next
  case (frame s)
  then show ?case by (simp add: Inv_animationFrame)
next
  case (hint s h)
  then show ?case by (simp add: Inv_hintTimerFired)
next
  case (layout s n r p en du ct)
  then show ?case by (simp add: Inv_layoutChange)
qed

section \<open>Switching sessions\<close>

lemma overlay_count:
  assumes i: "Inv s" shows "card (set (overlaysInDocument (doc s))) \<le> 1"
proof -
  from i have t: "treeInv (doc s)" and o: "overlayInv (doc s) (overlay s)"
    by (simp_all add: Inv_def)
  have "card (set (overlaysInDocument (doc s))) \<le> card (set_option (overlay s))"
    by (rule card_mono[OF _ overlaysInDocument_subset[OF t o]]) simp
  also have "\<dots> \<le> 1" by (cases "overlay s") simp_all
  finally show ?thesis .
qed

lemma session_overlay:
  assumes t: "treeInv d" and o: "overlayInv d ov"
    and e: "e < nextNode d" "e \<noteq> body d" "e \<noteq> documentElement d"
    and ne: "elemId (elements d e) \<noteq> OVERLAY_ID"
  shows "set (overlaysInDocument (sessionDocument d e ty)) = {nextNode d}"
proof -
  let ?D = "sessionDocument d e ty"
  note t' = treeInv_sessionDocument[OF t o e]
  note o' = overlayInv_sessionDocument[OF t o e(1) ne]
  have "nextNode d \<in> set (overlaysInDocument ?D)"
    unfolding overlaysInDocument_set[OF t' o']
    using e(1) by (simp add: sessionDocument_new parentOf_sessionDocument[OF t o])
  with overlaysInDocument_subset[OF t' o'] show ?thesis by auto
qed

lemma switch_session_steps:
  assumes i: "Inv s" and a: "isActive s" and c: "currentElement s = Some e0"
    and st: "originalElementState s = Some st0" and sp: "siblingInPlace (doc s) st0"
  defines "s' \<equiv> snd (exitPaneFullscreen s)"
  shows "fst (exitPaneFullscreen s) = Returned ()" and "\<not> isActive s'"
    and "enterPaneFullscreen (Some e) ty s = enterPaneFullscreen (Some e) ty s'"
    and "set (overlaysInDocument (doc s')) = {}"
    and "styleAttr (elements (doc s') e0) = Some (os_style st0)"
    and "classList (elements (doc s') e0) = stripMarkers (os_className st0)"
    and "os_parent st0 = Some p \<Longrightarrow>
           parentOf (doc s') e0 = Some p \<and> nextSibling (doc s') e0 = os_nextSibling st0"
    and "e < nextNode (doc s) \<Longrightarrow> e \<noteq> body (doc s) \<Longrightarrow> e \<noteq> documentElement (doc s) \<Longrightarrow>
         elemId (elements (doc s) e) \<noteq> OVERLAY_ID \<Longrightarrow>
           fst (enterPaneFullscreen (Some e) ty s) = Returned True \<and>
           card (set (overlaysInDocument (doc (snd (enterPaneFullscreen (Some e) ty s))))) = 1"
proof -
  from i a c st obtain ov ec where v: "overlay s = Some ov" "elementContainer s = Some ec"
    "sessionInv (doc s) e0 st0 ov ec"
    unfolding Inv_def by auto
  from i have t: "treeInv (doc s)" and o: "overlayInv (doc s) (overlay s)"
    by (simp_all add: Inv_def)
  from o v(1) have o': "overlayInv (doc s) (Some ov)" by simp
  have x: "exitPaneFullscreen s =
      (Returned (),
       s\<lparr>doc := exitDocument (doc s) e0 st0, overlay := None, elementContainer := None,
         isActive := False, currentElement := None, originalElementState := None\<rparr>)"
    using exit_effect[OF t a c st v(3)] sp by simp
  then have s': "s' = s\<lparr>doc := exitDocument (doc s) e0 st0, overlay := None,
         elementContainer := None, isActive := False, currentElement := None,
         originalElementState := None\<rparr>"
    by (simp add: s'_def)
  show r: "fst (exitPaneFullscreen s) = Returned ()" by (simp add: x)
  show na: "\<not> isActive s'" by (simp add: s')
  show f: "enterPaneFullscreen (Some e) ty s = enterPaneFullscreen (Some e) ty s'"
    unfolding s'_def by (rule enter_exit_first[OF a r]) (use na in \<open>simp add: s'_def\<close>)
  show "set (overlaysInDocument (doc s')) = {}"
    using exitDocument_inv(3)[OF t o' v(3)] by (simp add: s')
  show "styleAttr (elements (doc s') e0) = Some (os_style st0)" by (simp add: s')
  show "classList (elements (doc s') e0) = stripMarkers (os_className st0)" by (simp add: s')
  show "parentOf (doc s') e0 = Some p \<and> nextSibling (doc s') e0 = os_nextSibling st0"
    if "os_parent st0 = Some p"
    using exitDocument_position[OF t o' v(3) sp that] by (simp add: s')
  show "fst (enterPaneFullscreen (Some e) ty s) = Returned True \<and>
        card (set (overlaysInDocument (doc (snd (enterPaneFullscreen (Some e) ty s))))) = 1"
    if e: "e < nextNode (doc s)" "e \<noteq> body (doc s)" "e \<noteq> documentElement (doc s)"
      and ne: "elemId (elements (doc s) e) \<noteq> OVERLAY_ID"
  proof -
    have t': "treeInv (doc s')" and o'': "overlayInv (doc s') (overlay s')"
      using exitDocument_inv(1,2)[OF t o' v(3)] by (simp_all add: s')
    have e': "e < nextNode (doc s')" "e \<noteq> body (doc s')" "e \<noteq> documentElement (doc s')"
      using e by (simp_all add: s')
    have ne': "elemId (elements (doc s') e) \<noteq> OVERLAY_ID" using ne by (simp add: s')
    show ?thesis
      unfolding f enter_inactive[OF t' o'' na e']
      by (simp add: session_overlay[OF t' o'' e' ne'])
  qed
qed

lemma samplePage_best: "findBestPlayableElement samplePage = Some (2, ''video'')"
  by code_simp

lemma samplePage_video_place:
  "os_parent (saveElementState samplePage 2) = Some 1"
  "os_nextSibling (saveElementState samplePage 2) = Some 3"
  "os_style (saveElementState samplePage 2) = []"
  "styleAttr (elements samplePage 2) = None"
  "parentOf samplePage 3 = Some 1"
  by code_simp+

lemma sampleSession_eq:
  "sampleSession =
     (initialState samplePage)
       \<lparr>originalElementState := Some (saveElementState samplePage 2),
        currentElement := Some 2,
        doc := sessionDocument samplePage 2 ''video'',
        overlay := Some 5, elementContainer := Some 6, isActive := True\<rparr>"
proof -
  note i = Inv_initialState[OF samplePage_wellFormed]
  then have t: "treeInv (doc (initialState samplePage))"
    and o: "overlayInv (doc (initialState samplePage)) (overlay (initialState samplePage))"
    by (simp_all add: Inv_def)
  have e: "2 < nextNode (doc (initialState samplePage))"
    "2 \<noteq> body (doc (initialState samplePage))"
    "2 \<noteq> documentElement (doc (initialState samplePage))"
    by (simp_all add: samplePage_def)
  have n: "nextNode samplePage = 5" by (simp add: samplePage_def)
  have na: "\<not> isActive (initialState samplePage)" by simp
  show ?thesis
    unfolding sampleSession_def
    by (simp add: samplePage_best enter_inactive[OF t o na e] n)
qed

lemma sampleSession_facts:
  "reachable sampleSession" "isActive sampleSession" "currentElement sampleSession = Some 2"
  "originalElementState sampleSession = Some (saveElementState samplePage 2)"
  "siblingInPlace (doc sampleSession) (saveElementState samplePage 2)"
  "3 < nextNode (doc sampleSession)" "3 \<noteq> body (doc sampleSession)"
  "3 \<noteq> documentElement (doc sampleSession)"
  "elemId (elements (doc sampleSession) 3) \<noteq> OVERLAY_ID"
proof -
  show "reachable sampleSession"
    unfolding sampleSession_def
    by (intro reachable.message reachable.start samplePage_wellFormed)
  show "isActive sampleSession" "currentElement sampleSession = Some 2"
    "originalElementState sampleSession = Some (saveElementState samplePage 2)"
    by (simp_all add: sampleSession_eq)
  have o: "overlayInv samplePage None"
    using Inv_initialState[OF samplePage_wellFormed] by (simp add: Inv_def)
  have i3: "elemId (elements samplePage 3) \<noteq> OVERLAY_ID"
    by (simp add: samplePage_def sampleElement_def blankElement_def OVERLAY_ID_def)
  have n: "nextNode samplePage = 5" "body samplePage = 1" "documentElement samplePage = 0"
    by (simp_all add: samplePage_def)
  show "siblingInPlace (doc sampleSession) (saveElementState samplePage 2)"
    using i3 by (simp add: sampleSession_eq siblingInPlace_def samplePage_video_place
        parentOf_sessionDocument[OF samplePage_treeInv o] n)
  show "3 < nextNode (doc sampleSession)" "3 \<noteq> body (doc sampleSession)"
    "3 \<noteq> documentElement (doc sampleSession)"
    by (simp_all add: sampleSession_eq n)
  show "elemId (elements (doc sampleSession) 3) \<noteq> OVERLAY_ID"
    using i3 by (simp add: sampleSession_eq sessionDocument_attrs n)
qed

text \<open>
  What holds of a switch when the exit inside it returns. No reachable state has more
  than one overlay element in the document. When \<^verbatim>\<open>enterPaneFullscreen\<close> is called with
  a node while a session is active, and the next sibling recorded in the snapshot is still
  a child of the recorded parent, the exit returns normally, no session is active and no
  overlay element is in the document after it, the node of the old session is back under
  the recorded parent and before the recorded next sibling, its style attribute is the
  recorded text and its class list the recorded one without the three marker classes, and
  the call goes on as it does from that state. If the new node is a node of the page other
  than the body, the root element and an overlay element, the call returns \<^verbatim>\<open>true\<close>
  and exactly one overlay element is in the document afterwards.
\<close>

lemma switch_after_exit:
  assumes "reachable s"
  shows "card (set (overlaysInDocument (doc s))) \<le> 1 \<and>
    (\<forall>e0 st0. isActive s \<and> currentElement s = Some e0 \<and> originalElementState s = Some st0 \<and>
        siblingInPlace (doc s) st0 \<longrightarrow>
       (let s' = snd (exitPaneFullscreen s) in
        fst (exitPaneFullscreen s) = Returned () \<and> \<not> isActive s' \<and>
        enterPaneFullscreen (Some e) ty s' = enterPaneFullscreen (Some e) ty s \<and>
        set (overlaysInDocument (doc s')) = {} \<and>
        styleAttr (elements (doc s') e0) = Some (os_style st0) \<and>
        classList (elements (doc s') e0) = stripMarkers (os_className st0) \<and>
        (\<forall>p. os_parent st0 = Some p \<longrightarrow>
           parentOf (doc s') e0 = Some p \<and> nextSibling (doc s') e0 = os_nextSibling st0) \<and>
        (e < nextNode (doc s) \<and> e \<noteq> body (doc s) \<and> e \<noteq> documentElement (doc s) \<and>
         elemId (elements (doc s) e) \<noteq> OVERLAY_ID \<longrightarrow>
           fst (enterPaneFullscreen (Some e) ty s) = Returned True \<and>
           card (set (overlaysInDocument
                  (doc (snd (enterPaneFullscreen (Some e) ty s))))) = 1)))"
proof -
  note i = reachable_Inv[OF assms]
  have "fst (exitPaneFullscreen s) = Returned () \<and> \<not> isActive (snd (exitPaneFullscreen s)) \<and>
        enterPaneFullscreen (Some e) ty (snd (exitPaneFullscreen s))
          = enterPaneFullscreen (Some e) ty s \<and>
        set (overlaysInDocument (doc (snd (exitPaneFullscreen s)))) = {} \<and>
        styleAttr (elements (doc (snd (exitPaneFullscreen s))) e0) = Some (os_style st0) \<and>
        classList (elements (doc (snd (exitPaneFullscreen s))) e0)
          = stripMarkers (os_className st0) \<and>
        (\<forall>p. os_parent st0 = Some p \<longrightarrow>
           parentOf (doc (snd (exitPaneFullscreen s))) e0 = Some p \<and>
           nextSibling (doc (snd (exitPaneFullscreen s))) e0 = os_nextSibling st0) \<and>
        (e < nextNode (doc s) \<and> e \<noteq> body (doc s) \<and> e \<noteq> documentElement (doc s) \<and>
         elemId (elements (doc s) e) \<noteq> OVERLAY_ID \<longrightarrow>
           fst (enterPaneFullscreen (Some e) ty s) = Returned True \<and>
           card (set (overlaysInDocument
                  (doc (snd (enterPaneFullscreen (Some e) ty s))))) = 1)"
    if h: "isActive s" "currentElement s = Some e0" "originalElementState s = Some st0"
      "siblingInPlace (doc s) st0" for e0 st0
    using switch_session_steps[OF i h] switch_session_steps(3)[OF i h, symmetric] by blast
  with overlay_count[OF i] show ?thesis by (simp add: Let_def)
qed

lemma switch_after_exit_sample:
  "reachable sampleSession \<and> isActive sampleSession \<and> currentElement sampleSession = Some 2 \<and>
   originalElementState sampleSession = Some (saveElementState samplePage 2) \<and>
   siblingInPlace (doc sampleSession) (saveElementState samplePage 2) \<and>
   3 < nextNode (doc sampleSession) \<and> 3 \<noteq> body (doc sampleSession) \<and>
   3 \<noteq> documentElement (doc sampleSession) \<and>
   elemId (elements (doc sampleSession) 3) \<noteq> OVERLAY_ID \<and>
   card (set (overlaysInDocument (doc sampleSession))) \<le> 1 \<and>
   fst (exitPaneFullscreen sampleSession) = Returned () \<and>
   parentOf (doc (snd (exitPaneFullscreen sampleSession))) 2 = Some 1 \<and>
   nextSibling (doc (snd (exitPaneFullscreen sampleSession))) 2 = Some 3 \<and>
   fst (enterPaneFullscreen (Some 3) ''iframe'' sampleSession) = Returned True \<and>
   card (set (overlaysInDocument
          (doc (snd (enterPaneFullscreen (Some 3) ''iframe'' sampleSession))))) = 1"
  using switch_after_exit[OF sampleSession_facts(1), of 3 "''iframe''"] sampleSession_facts
    samplePage_video_place(1,2)
  by (simp add: Let_def)

lemma switch_leaves_empty_style:
  "reachable sampleSession \<and> currentElement sampleSession = Some 2 \<and>
   styleAttr (elements samplePage 2) = None \<and>
   fst (enterPaneFullscreen (Some 3) ''iframe'' sampleSession) = Returned True \<and>
   styleAttr (elements (doc (snd (enterPaneFullscreen (Some 3) ''iframe'' sampleSession))) 2)
     = Some []"
proof -
  note f = sampleSession_facts
  note i = reachable_Inv[OF f(1)]
  note w = switch_session_steps[OF i f(2,3,4,5)]
  let ?s' = "snd (exitPaneFullscreen sampleSession)"
  note x = Inv_exit[OF i] exit_roots[OF i]
  have t': "treeInv (doc ?s')" and o': "overlayInv (doc ?s') (overlay ?s')"
    using x(1) by (simp_all add: Inv_def)
  have e': "3 < nextNode (doc ?s')" "3 \<noteq> body (doc ?s')" "3 \<noteq> documentElement (doc ?s')"
    using f(6,7,8) x by simp_all
  have n: "2 < nextNode (doc ?s')" using e'(1) by simp
  have "styleAttr (elements (doc (snd (enterPaneFullscreen (Some 3) ''iframe'' sampleSession))) 2)
          = styleAttr (elements (doc ?s') 2)"
    unfolding w(3) enter_inactive[OF t' o' w(2) e']
    using sessionDocument_attrs(3)[OF n] by simp
  with w(5) w(8)[OF f(6,7,8,9)] f samplePage_video_place show ?thesis by simp
qed

section \<open>Calls that do not return\<close>

lemma elements_overlayAttached:
  "elements (overlayAttached d) m =
     (elements (overlayElements d) m)
       \<lparr>parentNode := parentOf (overlayAttached d) m,
        childNodes := childrenOf (overlayAttached d) m\<rparr>"
  by (simp add: overlayAttached_def Let_def elements_insertNode)

lemma bodyPlayerPage_no_overlay: "withoutOverlay bodyPlayerPage = bodyPlayerPage"
proof -
  have "getElementById bodyPlayerPage OVERLAY_ID = None" by code_simp
  then show ?thesis by (simp add: withoutOverlay_def)
qed

lemma bodyPlayerPage_simps:
  "nextNode bodyPlayerPage = 3" "body bodyPlayerPage = 1" "documentElement bodyPlayerPage = 0"
  "innerWidth bodyPlayerPage = 1280" "innerHeight bodyPlayerPage = 720"
  by (simp_all add: bodyPlayerPage_def)

lemma firstRequest_eq:
  "snd (onMessage AutoFullscreen (initialState bodyPlayerPage))
   = (initialState bodyPlayerPage)
       \<lparr>originalElementState := Some (saveElementState bodyPlayerPage 1),
        currentElement := Some 1,
        doc := classListAdd (overlayAttached bodyPlayerPage) 1 (markerClass ''container''),
        overlay := Some 3, elementContainer := Some 4\<rparr>"
proof -
  note i = Inv_initialState[OF bodyPlayerPage_wellFormed]
  then have t: "treeInv (doc (initialState bodyPlayerPage))"
    and o: "overlayInv (doc (initialState bodyPlayerPage)) (overlay (initialState bodyPlayerPage))"
    by (simp_all add: Inv_def)
  have e: "1 = body (doc (initialState bodyPlayerPage)) \<or>
           1 = documentElement (doc (initialState bodyPlayerPage))"
    by (simp add: bodyPlayerPage_def)
  have na: "\<not> isActive (initialState bodyPlayerPage)" by simp
  show ?thesis
    by (simp add: bodyPlayerPage_best enter_root[OF t o na e] bodyPlayerPage_no_overlay
        bodyPlayerPage_simps del: One_nat_def)
qed

lemma firstRequest_Inv:
  "Inv (snd (onMessage AutoFullscreen (initialState bodyPlayerPage)))"
  by (rule Inv_onMessage[OF Inv_initialState[OF bodyPlayerPage_wellFormed]])

text \<open>
  C6. The claim asks for a result from every call: \<^verbatim>\<open>false\<close> exactly when no node is
  supplied, with nothing changed, and \<^verbatim>\<open>true\<close> for every node. The first part holds of
  the code. The second does not: on \<open>bodyPlayerPage\<close> the popup's request makes the
  scanner pick the body, and \<^verbatim>\<open>enterPaneFullscreen\<close> throws
  \<^verbatim>\<open>HierarchyRequestError\<close> out of the message listener instead of returning. By then
  the snapshot and the current element are stored, a new overlay is in the document and
  the body carries the marker class; \<^verbatim>\<open>isActive\<close> is still false.
\<close>

theorem enter_body_throws:
  "(fst (enterPaneFullscreen el ty s) = Returned False \<longleftrightarrow> el = None) \<and>
   enterPaneFullscreen None ty s = (Returned False, s) \<and>
   findBestPlayableElement bodyPlayerPage = Some (1, ''container'') \<and>
   fst (enterPaneFullscreen (Some 1) ''container'' (initialState bodyPlayerPage))
     = Threw HierarchyRequestError \<and>
   fst (onMessage AutoFullscreen (initialState bodyPlayerPage)) = Threw HierarchyRequestError \<and>
   \<not> isActive (snd (onMessage AutoFullscreen (initialState bodyPlayerPage))) \<and>
   currentElement (snd (onMessage AutoFullscreen (initialState bodyPlayerPage))) = Some 1 \<and>
   originalElementState (snd (onMessage AutoFullscreen (initialState bodyPlayerPage)))
     = Some (saveElementState bodyPlayerPage 1) \<and>
   overlay (snd (onMessage AutoFullscreen (initialState bodyPlayerPage))) = Some 3 \<and>
   set (overlaysInDocument (doc (snd (onMessage AutoFullscreen (initialState bodyPlayerPage)))))
     = {3} \<and>
   classList (elements (doc (snd (onMessage AutoFullscreen (initialState bodyPlayerPage)))) 1)
     = [''video-player'', ''pane-fullscreen-container'']"
proof -
  let ?s0 = "initialState bodyPlayerPage"
  let ?D = "classListAdd (overlayAttached bodyPlayerPage) 1 (markerClass ''container'')"
  note i = Inv_initialState[OF bodyPlayerPage_wellFormed]
  then have t: "treeInv (doc ?s0)" and o: "overlayInv (doc ?s0) (overlay ?s0)"
    by (simp_all add: Inv_def)
  have e: "1 = body (doc ?s0) \<or> 1 = documentElement (doc ?s0)"
    by (simp add: bodyPlayerPage_def)
  have na: "\<not> isActive ?s0" by simp
  have x: "fst (enterPaneFullscreen (Some 1) ''container'' ?s0) = Threw HierarchyRequestError"
    unfolding enter_root[OF t o na e] by simp
  have m: "fst (onMessage AutoFullscreen ?s0) = Threw HierarchyRequestError"
    by (simp add: bodyPlayerPage_best enter_root[OF t o na e] del: One_nat_def)
  from firstRequest_Inv have t': "treeInv ?D" and o': "overlayInv ?D (Some 3)"
    unfolding firstRequest_eq by (simp_all add: Inv_def)
  have "3 \<in> set (overlaysInDocument ?D)"
    unfolding overlaysInDocument_set[OF t' o']
    using overlayAttached_new(2)[of bodyPlayerPage]
    by (simp add: bodyPlayerPage_simps)
  with overlaysInDocument_subset[OF t' o'] have ov: "set (overlaysInDocument ?D) = {3}"
    by auto
  have b: "classList (elements bodyPlayerPage 1) = [''video-player'']"
    by code_simp
  have "classList (elements (overlayAttached bodyPlayerPage) 1) = [''video-player'']"
    using overlayAttached_old(4)[of 1 bodyPlayerPage] b by (simp add: bodyPlayerPage_simps)
  then have cl: "classList (elements ?D 1) = [''video-player'', ''pane-fullscreen-container'']"
    by (simp add: classListAdd_def markerClass_def)
  show ?thesis
    unfolding firstRequest_eq
    using enter_returns_false[of el ty s] bodyPlayerPage_best x m ov cl
    by (simp add: enterPaneFullscreen_def)
qed

lemma stalePage_elements:
  "elements (upd (classListAdd (overlayAttached bodyPlayerPage) 1 (markerClass ''container'')) 1
       (\<lambda>e. e\<lparr>clientRect := box 0 0 0 0, paused := True, ended := False,
              mediaDuration := NotANumber, currentTime := 0\<rparr>)) m
   = elements stalePage m"
proof -
  have b: "body bodyPlayerPage < nextNode bodyPlayerPage" by (simp add: bodyPlayerPage_simps)
  have c: "childrenOf bodyPlayerPage 0 = [1]" "childrenOf bodyPlayerPage 1 = [2]"
    "childrenOf bodyPlayerPage 2 = []" "parentOf bodyPlayerPage 0 = None"
    "parentOf bodyPlayerPage 1 = Some 0" "parentOf bodyPlayerPage 2 = Some 1"
    by code_simp+
  have e: "elements bodyPlayerPage 0 = sampleElement ''HTML'' None [1]"
    "elements bodyPlayerPage 1 = (sampleElement ''BODY'' (Some 0) [2])
                \<lparr>clientRect := box 0 0 1280 720, classList := [''video-player'']\<rparr>"
    "elements bodyPlayerPage 2 = (sampleElement ''DIV'' (Some 1) [])
                \<lparr>clientRect := box 0 0 1280 600, elemId := ''player''\<rparr>"
    "7 \<le> m \<Longrightarrow> elements bodyPlayerPage m = blankElement ''#text''"
    by (simp_all add: bodyPlayerPage_def)
  have f: "7 \<le> m \<Longrightarrow> parentOf bodyPlayerPage m = None"
    "7 \<le> m \<Longrightarrow> childrenOf bodyPlayerPage m = []"
    by (simp_all add: parentOf_def childrenOf_def bodyPlayerPage_def blankElement_def
        del: fold_parentOf fold_childrenOf)
  note s = f classListAdd_def elements_overlayAttached elements_overlayElements
    childrenOf_overlayAttached[OF b] bodyPlayerPage_simps c e stalePage_def sampleElement_def
    blankElement_def markerClass_def box_def
  consider "m = 0" | "m = 1" | "m = 2" | "m = 3" | "m = 4" | "m = 5" | "m = 6" | "7 \<le> m"
    by linarith
  then show ?thesis
  proof cases
    case 1 then show ?thesis by (simp add: s del: fold_parentOf fold_childrenOf)
  next
    case 2 then show ?thesis
      by (simp add: s s[unfolded One_nat_def] del: fold_parentOf fold_childrenOf)
  next
    case 3 then show ?thesis by (simp add: s del: fold_parentOf fold_childrenOf)
  next
    case 4 then show ?thesis by (simp add: s del: fold_parentOf fold_childrenOf)
  next
    case 5 then show ?thesis by (simp add: s del: fold_parentOf fold_childrenOf)
  next
    case 6 then show ?thesis by (simp add: s del: fold_parentOf fold_childrenOf)
  next
    case 7 then show ?thesis by (simp add: s del: fold_parentOf fold_childrenOf)
  next
    case 8 then show ?thesis by (simp add: s del: fold_parentOf fold_childrenOf)
  qed
qed


lemma stalePage_after_layout:
  "upd (classListAdd (overlayAttached bodyPlayerPage) 1 (markerClass ''container'')) 1
       (\<lambda>e. e\<lparr>clientRect := box 0 0 0 0, paused := True, ended := False,
              mediaDuration := NotANumber, currentTime := 0\<rparr>) = stalePage"
proof (rule document.equality)
  show "elements (upd (classListAdd (overlayAttached bodyPlayerPage) 1
            (markerClass ''container'')) 1
       (\<lambda>e. e\<lparr>clientRect := box 0 0 0 0, paused := True, ended := False,
              mediaDuration := NotANumber, currentTime := 0\<rparr>)) = elements stalePage"
    by (intro ext) (rule stalePage_elements)
qed (simp_all add: classListAdd_def bodyPlayerPage_simps stalePage_def)

lemma staleState_eq:
  "layoutChange 1 (box 0 0 0 0) True False NotANumber 0
     (snd (onMessage AutoFullscreen (initialState bodyPlayerPage)))
   = (initialState bodyPlayerPage)
       \<lparr>originalElementState := Some (saveElementState bodyPlayerPage 1),
        currentElement := Some 1, doc := stalePage, overlay := Some 3,
        elementContainer := Some 4\<rparr>"
  unfolding firstRequest_eq layoutChange_def
  by (simp add: stalePage_after_layout del: One_nat_def)

lemma staleState_reachable:
  "reachable ((initialState bodyPlayerPage)
       \<lparr>originalElementState := Some (saveElementState bodyPlayerPage 1),
        currentElement := Some 1, doc := stalePage, overlay := Some 3,
        elementContainer := Some 4\<rparr>)"
proof -
  have "1 < nextNode (doc (snd (onMessage AutoFullscreen (initialState bodyPlayerPage))))"
    unfolding firstRequest_eq by (simp add: bodyPlayerPage_simps)
  then show ?thesis
    unfolding staleState_eq[symmetric]
    by (intro reachable.layout reachable.message reachable.start bodyPlayerPage_wellFormed)
qed

lemma stalePage_facts:
  "findBestPlayableElement stalePage = Some (2, ''container'')"
  "os_parent (saveElementState stalePage 2) = Some 1"
  "os_nextSibling (saveElementState stalePage 2) = Some 3"
  "elemId (elements stalePage 3) = OVERLAY_ID"
  "elemId (elements stalePage 2) \<noteq> OVERLAY_ID"
  "nextNode stalePage = 7" "body stalePage = 1" "documentElement stalePage = 0"
  by code_simp+

lemma staleSession_eq:
  "staleSession =
     (initialState bodyPlayerPage)
       \<lparr>originalElementState := Some (saveElementState stalePage 2),
        currentElement := Some 2, doc := sessionDocument stalePage 2 ''container'',
        overlay := Some 7, elementContainer := Some 8, isActive := True\<rparr>"
    and staleSession_reachable: "reachable staleSession"
    and staleSession_sibling:
      "\<not> siblingInPlace (doc staleSession) (saveElementState stalePage 2)"
proof -
  let ?s = "(initialState bodyPlayerPage)
       \<lparr>originalElementState := Some (saveElementState bodyPlayerPage 1),
        currentElement := Some 1, doc := stalePage, overlay := Some 3,
        elementContainer := Some 4\<rparr>"
  note i = reachable_Inv[OF staleState_reachable]
  then have t: "treeInv (doc ?s)" and o: "overlayInv (doc ?s) (overlay ?s)"
    by (simp_all add: Inv_def)
  have e: "2 < nextNode (doc ?s)" "2 \<noteq> body (doc ?s)" "2 \<noteq> documentElement (doc ?s)"
    by (simp_all add: stalePage_facts)
  have na: "\<not> isActive ?s" by simp
  have s: "staleSession = snd (onMessage AutoFullscreen ?s)"
    by (simp only: staleSession_def staleState_eq)
  show q: "staleSession =
     (initialState bodyPlayerPage)
       \<lparr>originalElementState := Some (saveElementState stalePage 2),
        currentElement := Some 2, doc := sessionDocument stalePage 2 ''container'',
        overlay := Some 7, elementContainer := Some 8, isActive := True\<rparr>"
    unfolding s by (simp add: stalePage_facts enter_inactive[OF t o na e] del: One_nat_def)
  show "reachable staleSession"
    unfolding s by (rule reachable.message[OF staleState_reachable])
  from t o have t': "treeInv stalePage" and o': "overlayInv stalePage (Some 3)" by simp_all
  show "\<not> siblingInPlace (doc staleSession) (saveElementState stalePage 2)"
    by (simp add: q siblingInPlace_def stalePage_facts parentOf_sessionDocument[OF t' o'])
qed

lemma exit_stale:
  assumes i: "Inv s" and a: "isActive s" and c: "currentElement s = Some e0"
    and st: "originalElementState s = Some st0" and sp: "\<not> siblingInPlace (doc s) st0"
  shows "exitPaneFullscreen s = (Threw NotFoundError, s\<lparr>doc := restoredAttrs (doc s) e0 st0\<rparr>)"
    and "enterPaneFullscreen (Some e) ty s
           = (Threw NotFoundError, s\<lparr>doc := restoredAttrs (doc s) e0 st0\<rparr>)"
proof -
  from i a c st obtain ov ec where v: "sessionInv (doc s) e0 st0 ov ec"
    unfolding Inv_def by auto
  from i have t: "treeInv (doc s)" by (simp add: Inv_def)
  show x: "exitPaneFullscreen s
             = (Threw NotFoundError, s\<lparr>doc := restoredAttrs (doc s) e0 st0\<rparr>)"
    using exit_effect[OF t a c st v] sp by simp
  then have "fst (exitPaneFullscreen s) = Threw NotFoundError" by simp
  from enter_exit_throws[OF a this] x
  show "enterPaneFullscreen (Some e) ty s
           = (Threw NotFoundError, s\<lparr>doc := restoredAttrs (doc s) e0 st0\<rparr>)"
    by simp
qed

text \<open>
  C5. The claim asks that \<^verbatim>\<open>enterPaneFullscreen\<close>, called while a session is active,
  first fully exits that session. On \<open>bodyPlayerPage\<close> the code cannot: the first request
  of the popup leaves an overlay in the document (the body was picked and the call threw);
  the third step of \<open>staleSession\<close> enters the \<^verbatim>\<open>#player\<close> box, whose next sibling is
  that overlay, and \<^verbatim>\<open>createOverlay\<close> then removes the overlay from the body. From
  then on \<^verbatim>\<open>restoreElementState\<close> calls \<^verbatim>\<open>insertBefore\<close> with a reference node that
  is no child of the parent: every exit throws \<^verbatim>\<open>NotFoundError\<close> before it removes the
  overlay or clears the session, the node stays in the holder, and every
  \<^verbatim>\<open>enterPaneFullscreen\<close> throws before it does anything for the new session. The last
  part of the claim holds: the document has one overlay element.
\<close>

theorem stale_session_cannot_exit:
  "reachable staleSession \<and> isActive staleSession \<and> currentElement staleSession = Some 2 \<and>
   fst (exitPaneFullscreen staleSession) = Threw NotFoundError \<and>
   isActive (snd (exitPaneFullscreen staleSession)) \<and>
   currentElement (snd (exitPaneFullscreen staleSession)) = Some 2 \<and>
   overlay (snd (exitPaneFullscreen staleSession)) = Some 7 \<and>
   parentOf (doc (snd (exitPaneFullscreen staleSession))) 2 = Some 8 \<and>
   isActive (keydown ''Escape'' staleSession) \<and>
   fst (enterPaneFullscreen (Some 2) ''container'' staleSession) = Threw NotFoundError \<and>
   snd (enterPaneFullscreen (Some 2) ''container'' staleSession)
     = snd (exitPaneFullscreen staleSession) \<and>
   card (set (overlaysInDocument (doc staleSession))) = 1"
proof -
  note i = reachable_Inv[OF staleSession_reachable]
  have a: "isActive staleSession" "currentElement staleSession = Some 2"
    "originalElementState staleSession = Some (saveElementState stalePage 2)"
    "overlay staleSession = Some 7"
    by (simp_all add: staleSession_eq)
  note x = exit_stale[OF i a(1,2,3) staleSession_sibling]
  have t: "treeInv stalePage" and o: "overlayInv stalePage (Some 3)"
    using reachable_Inv[OF staleState_reachable] by (simp_all add: Inv_def)
  have p: "parentOf (doc (snd (exitPaneFullscreen staleSession))) 2 = Some 8"
    unfolding x(1) by (simp add: staleSession_eq parentOf_sessionDocument[OF t o] stalePage_facts)
  have k: "isActive (keydown ''Escape'' staleSession)"
    using a(1) by (simp add: keydown_def x(1))
  have e: "2 < nextNode stalePage" "2 \<noteq> body stalePage" "2 \<noteq> documentElement stalePage"
    by (simp_all add: stalePage_facts)
  have c: "card (set (overlaysInDocument (doc staleSession))) = 1"
    by (simp add: staleSession_eq session_overlay[OF t o e stalePage_facts(5)])
  show ?thesis
    using staleSession_reachable a p k c by (simp add: x)
qed

end
